theory Spec2Isabelle
  imports Main
begin

section \<open>Text primitives\<close>

text \<open>
  The service works on Python \<open>str\<close> values. A text is modelled as a HOL \<open>string\<close>
  whose characters stand for the code points of the same number, so the model covers
  texts over the code points below 256. The character classes below are the ones
  Python's \<open>re\<close> module and \<open>str\<close> methods use on that range.
\<close>

definition nl :: char where
  "nl = CHR 0x0A"

definition code :: "char \<Rightarrow> nat" where
  "code c = of_char c"

text \<open>\<open>\s\<close> and the characters removed by \<open>str.strip()\<close>.\<close>

definition is_space :: "char \<Rightarrow> bool" where
  "is_space c = (let n = code c in
     (9 \<le> n \<and> n \<le> 13) \<or> (28 \<le> n \<and> n \<le> 32) \<or> n = 133 \<or> n = 160)"

text \<open>\<open>\d\<close>.\<close>

definition is_digit :: "char \<Rightarrow> bool" where
  "is_digit c = (let n = code c in 48 \<le> n \<and> n \<le> 57)"

definition is_upper :: "char \<Rightarrow> bool" where
  "is_upper c = (let n = code c in 65 \<le> n \<and> n \<le> 90)"

definition is_lower :: "char \<Rightarrow> bool" where
  "is_lower c = (let n = code c in 97 \<le> n \<and> n \<le> 122)"

text \<open>\<open>[a-zA-Z]\<close>.\<close>

definition is_alpha :: "char \<Rightarrow> bool" where
  "is_alpha c = (is_upper c \<or> is_lower c)"

text \<open>\<open>[A-Z0-9]\<close> under \<open>re.IGNORECASE\<close>, and \<open>[a-zA-Z0-9]\<close>.\<close>

definition is_alnum :: "char \<Rightarrow> bool" where
  "is_alnum c = (is_alpha c \<or> is_digit c)"

text \<open>\<open>\w\<close>: the alphanumeric code points (\<open>str.isalnum\<close>) and the underscore.\<close>

definition is_word :: "char \<Rightarrow> bool" where
  "is_word c = (let n = code c in
     is_alnum c \<or> n = 95 \<or> n = 170 \<or> n = 178 \<or> n = 179 \<or> n = 181 \<or> n = 185 \<or> n = 186 \<or>
     (188 \<le> n \<and> n \<le> 190) \<or> (192 \<le> n \<and> n \<le> 214) \<or> (216 \<le> n \<and> n \<le> 246) \<or> 248 \<le> n)"

text \<open>\<open>.\<close> (without \<open>re.DOTALL\<close>).\<close>

definition not_nl :: "char \<Rightarrow> bool" where
  "not_nl c = (c \<noteq> nl)"

text \<open>\<open>[^,]\<close>.\<close>

definition not_comma :: "char \<Rightarrow> bool" where
  "not_comma c = (c \<noteq> CHR '','')"

text \<open>\<open>[\d,\s]\<close>.\<close>

definition naics_char :: "char \<Rightarrow> bool" where
  "naics_char c = (is_digit c \<or> c = CHR '','' \<or> is_space c)"

text \<open>\<open>[a-zA-Z0-9._%+-]\<close> and \<open>[a-zA-Z0-9.-]\<close>.\<close>

definition local_char :: "char \<Rightarrow> bool" where
  "local_char c = (is_alnum c \<or> c = CHR ''.'' \<or> c = CHR ''_'' \<or> c = CHR ''%'' \<or>
     c = CHR ''+'' \<or> c = CHR ''-'')"

definition domain_char :: "char \<Rightarrow> bool" where
  "domain_char c = (is_alnum c \<or> c = CHR ''.'' \<or> c = CHR ''-'')"

text \<open>
  The lower-case mapping of a code point, as \<open>str.lower()\<close> and the \<open>re.IGNORECASE\<close>
  comparison apply it: the capital letters A to Z and the capital letters from 192 to 222
  (215, the multiplication sign, is not a letter) move up by 32.
\<close>

definition lower_code :: "nat \<Rightarrow> nat" where
  "lower_code n =
     (if (65 \<le> n \<and> n \<le> 90) \<or> (192 \<le> n \<and> n \<le> 222 \<and> n \<noteq> 215) then n + 32 else n)"

definition lower_char :: "char \<Rightarrow> char" where
  "lower_char c = char_of (lower_code (code c))"

definition lower :: "string \<Rightarrow> string" where
  "lower s = map lower_char s"

text \<open>
  A literal pattern character \<open>p\<close> under \<open>re.IGNORECASE\<close>: the character read is
  lower-cased and compared with the lower-cased \<open>p\<close>.
\<close>

definition ci :: "char \<Rightarrow> char \<Rightarrow> bool" where
  "ci p c = (lower_code (code c) = lower_code (code p))"

text \<open>\<open>str.strip()\<close> with no argument.\<close>

definition strip :: "string \<Rightarrow> string" where
  "strip s = rev (dropWhile is_space (rev (dropWhile is_space s)))"

text \<open>\<open>str.split(d)\<close> for a one-character separator: the result is never empty.\<close>

fun split_on :: "char \<Rightarrow> string \<Rightarrow> string list" where
  "split_on d [] = [[]]"
| "split_on d (c # cs) =
     (if c = d then [] # split_on d cs
      else (case split_on d cs of [] \<Rightarrow> [[c]] | x # xs \<Rightarrow> (c # x) # xs))"

section \<open>Regular expressions\<close>

text \<open>
  The patterns of the service are sequences of single characters, greedy repetitions of a
  character class, capture groups around such a repetition, and \<open>$\<close>:
  \<^item> \<open>Lit p\<close>: one character of class \<open>p\<close>;
  \<^item> \<open>Rep n p\<close>: \<open>p{n,}\<close>, so \<open>Rep 0 p\<close> is \<open>p*\<close> and \<open>Rep 1 p\<close> is \<open>p+\<close>;
  \<^item> \<open>Cap n p\<close>: the capture group \<open>(p{n,})\<close>;
  \<^item> \<open>Eos\<close>: \<open>$\<close> without \<open>re.MULTILINE\<close>, the end of the text or the position before a
    line break that ends the text.
  The matcher backtracks as \<open>re\<close> does: a repetition first takes as many characters as it
  can and gives them back one at a time while the rest of the pattern fails.
\<close>

datatype atom = Lit "char \<Rightarrow> bool" | Rep nat "char \<Rightarrow> bool" | Cap nat "char \<Rightarrow> bool" | Eos

text \<open>The first attempt that succeeds.\<close>

fun first_some :: "'a option list \<Rightarrow> 'a option" where
  "first_some [] = None"
| "first_some (x # xs) = (case x of Some y \<Rightarrow> Some y | None \<Rightarrow> first_some xs)"

text \<open>The lengths a greedy repetition \<open>p{n,}\<close> tries on \<open>s\<close>, longest first.\<close>

definition greedy :: "nat \<Rightarrow> (char \<Rightarrow> bool) \<Rightarrow> string \<Rightarrow> nat list" where
  "greedy n p s = rev [n ..< Suc (length (takeWhile p s))]"

text \<open>\<open>re_match pat s\<close>: the groups captured when \<open>pat\<close> matches at the start of \<open>s\<close>.\<close>

fun re_match :: "atom list \<Rightarrow> string \<Rightarrow> string list option" where
  "re_match [] s = Some []"
| "re_match (Lit p # r) s =
     (case s of [] \<Rightarrow> None | c # s' \<Rightarrow> if p c then re_match r s' else None)"
| "re_match (Rep n p # r) s =
     first_some (map (\<lambda>j. re_match r (drop j s)) (greedy n p s))"
| "re_match (Cap n p # r) s =
     first_some (map (\<lambda>j. map_option ((#) (take j s)) (re_match r (drop j s))) (greedy n p s))"
| "re_match (Eos # r) s = (if s = [] \<or> s = [nl] then re_match r s else None)"

text \<open>\<open>re.search\<close>: the match at the leftmost position that has one.\<close>

fun re_search :: "atom list \<Rightarrow> string \<Rightarrow> string list option" where
  "re_search pat [] = re_match pat []"
| "re_search pat (c # cs) =
     (case re_match pat (c # cs) of Some g \<Rightarrow> Some g | None \<Rightarrow> re_search pat cs)"

text \<open>A label, matched under \<open>re.IGNORECASE\<close>.\<close>

definition label :: "string \<Rightarrow> atom list" where
  "label l = map (\<lambda>p. Lit (ci p)) l"

text \<open>The first group of a search result, the \<open>m.group(1)\<close> after \<open>if m:\<close>.\<close>

fun group1 :: "string list option \<Rightarrow> string option" where
  "group1 (Some (g # gs)) = Some g"
| "group1 _ = None"

section \<open>Records\<close>

record CompanyProfile =
  company_name :: "string option"
  uei :: "string option"
  duns :: "string option"
  naics :: "string list"
  poc_name :: "string option"
  poc_email :: "string option"
  poc_phone :: "string option"
  address :: "string option"
  sam_registered :: "bool option"

record PastPerformance =
  customer :: "string option"
  contract :: "string option"
  val :: "string option"
  period :: "string option"
  contact :: "string option"

section \<open>Field extraction\<close>

definition uei_pat :: "atom list" where
  "uei_pat = label ''UEI:'' @ [Rep 0 is_space, Cap 1 is_alnum]"

definition duns_pat :: "atom list" where
  "duns_pat = label ''DUNS:'' @ [Rep 0 is_space, Cap 1 is_digit]"

definition naics_pat :: "atom list" where
  "naics_pat = label ''NAICS:'' @ [Rep 0 is_space, Cap 1 naics_char]"

definition poc_pat :: "atom list" where
  "poc_pat = label ''POC:'' @
     [Rep 0 is_space, Cap 1 not_comma, Lit ((=) CHR '',''),
      Rep 0 is_space, Cap 1 not_comma, Lit ((=) CHR '',''),
      Rep 0 is_space, Cap 1 not_nl]"

definition sam_pat :: "atom list" where
  "sam_pat = label ''SAM.gov:'' @ [Rep 0 is_space, Cap 1 is_word]"

text \<open>\<open>Label:\s*(.+)\<close>, the pattern of the address and of every past performance field.\<close>

definition line_pat :: "string \<Rightarrow> atom list" where
  "line_pat l = label l @ [Rep 0 is_space, Cap 1 not_nl]"

definition first_line :: "string \<Rightarrow> string option" where
  "first_line text = (case split_on nl (strip text) of [] \<Rightarrow> None | l # ls \<Rightarrow> Some (strip l))"

definition split_codes :: "string \<Rightarrow> string list" where
  "split_codes naics_str = filter (\<lambda>c. c \<noteq> []) (map strip (split_on CHR '','' naics_str))"

definition parse_company_profile :: "string \<Rightarrow> CompanyProfile" where
  "parse_company_profile text =
    (let poc_match = re_search poc_pat text in
     \<lparr> company_name = first_line text,
       uei = group1 (re_search uei_pat text),
       duns = group1 (re_search duns_pat text),
       naics = (case re_search naics_pat text of Some (g # gs) \<Rightarrow> split_codes g | _ \<Rightarrow> []),
       poc_name = (case poc_match of Some [g1, g2, g3] \<Rightarrow> Some (strip g1) | _ \<Rightarrow> None),
       poc_email = (case poc_match of Some [g1, g2, g3] \<Rightarrow> Some (strip g2) | _ \<Rightarrow> None),
       poc_phone = (case poc_match of Some [g1, g2, g3] \<Rightarrow> Some (strip g3) | _ \<Rightarrow> None),
       address = map_option strip (group1 (re_search (line_pat ''Address:'') text)),
       sam_registered =
         map_option (\<lambda>g. lower g = ''registered'') (group1 (re_search sam_pat text)) \<rparr>)"

definition parse_past_performance :: "string \<Rightarrow> PastPerformance" where
  "parse_past_performance text =
     \<lparr> customer = map_option strip (group1 (re_search (line_pat ''Customer:'') text)),
       contract = map_option strip (group1 (re_search (line_pat ''Contract:'') text)),
       val = map_option strip (group1 (re_search (line_pat ''Value:'') text)),
       period = map_option strip (group1 (re_search (line_pat ''Period:'') text)),
       contact = map_option strip (group1 (re_search (line_pat ''Contact:'') text)) \<rparr>"

section \<open>Validation\<close>

text \<open>
  The pattern of \<open>validate_email\<close>. It is given to \<open>re.match\<close>, which matches at the start
  of the text, where the leading \<open>^\<close> holds.
\<close>

definition email_pat :: "atom list" where
  "email_pat = [Rep 1 local_char, Lit ((=) CHR ''@''), Rep 1 domain_char, Lit ((=) CHR ''.''),
     Rep 2 is_alpha, Eos]"

text \<open>Python truthiness of an \<open>Optional[str]\<close>: set and not empty.\<close>

fun truthy :: "string option \<Rightarrow> bool" where
  "truthy None = False"
| "truthy (Some s) = (s \<noteq> [])"

definition validate_email :: "string \<Rightarrow> bool" where
  "validate_email email = (if email = [] then False else re_match email_pat email \<noteq> None)"

definition issue :: "bool \<Rightarrow> string \<Rightarrow> string list" where
  "issue b name = (if b then [name] else [])"

definition validate_fields :: "CompanyProfile \<Rightarrow> PastPerformance \<Rightarrow> string list" where
  "validate_fields profile performance =
     issue (\<not> truthy (company_name profile)) ''missing_company_name'' @
     issue (\<not> truthy (uei profile)) ''missing_uei'' @
     issue (\<not> truthy (duns profile)) ''missing_duns'' @
     issue (naics profile = []) ''missing_naics'' @
     issue (\<not> truthy (poc_name profile)) ''missing_poc_name'' @
     (case poc_email profile of
        None \<Rightarrow> [''missing_poc_email'']
      | Some e \<Rightarrow> if e = [] then [''missing_poc_email'']
                 else if \<not> validate_email e then [''invalid_poc_email'']
                 else []) @
     issue (\<not> truthy (poc_phone profile)) ''missing_poc_phone'' @
     issue (\<not> truthy (address profile)) ''missing_address'' @
     issue (sam_registered profile = None) ''missing_sam_status'' @
     issue (\<not> truthy (customer performance)) ''missing_customer'' @
     issue (\<not> truthy (contract performance)) ''missing_contract'' @
     issue (\<not> truthy (val performance)) ''missing_contract_value'' @
     issue (\<not> truthy (period performance)) ''missing_contract_period'' @
     issue (\<not> truthy (contact performance)) ''missing_contract_contact''"

section \<open>Code mapping\<close>

definition NAICS_SIN_MAPPING :: "string \<rightharpoonup> string" where
  "NAICS_SIN_MAPPING = [''541511'' \<mapsto> ''54151S'', ''541512'' \<mapsto> ''54151S'',
     ''541611'' \<mapsto> ''541611'', ''518210'' \<mapsto> ''518210C'']"

text \<open>The loop of \<open>map_naics_to_sins\<close>, with the list \<open>sins\<close> built so far.\<close>

fun map_loop :: "string list \<Rightarrow> string list \<Rightarrow> string list" where
  "map_loop sins [] = sins"
| "map_loop sins (c # cs) =
     (case NAICS_SIN_MAPPING c of
        None \<Rightarrow> map_loop sins cs
      | Some sin \<Rightarrow> if sin \<notin> set sins then map_loop (sins @ [sin]) cs else map_loop sins cs)"

definition map_naics_to_sins :: "string list \<Rightarrow> string list" where
  "map_naics_to_sins naics_codes = map_loop [] naics_codes"

section \<open>Checklist\<close>

record check =
  ok :: bool
  details :: string

record Checklist =
  has_company_info :: check
  has_valid_naics :: check
  has_poc_info :: check
  has_sam_registration :: check
  has_past_performance :: check
  overall_ok :: bool
  total_issues :: nat

definition generate_checklist ::
  "CompanyProfile \<Rightarrow> PastPerformance \<Rightarrow> string list \<Rightarrow> Checklist" where
  "generate_checklist profile performance issues =
     \<lparr> has_company_info =
         \<lparr> ok = (truthy (company_name profile) \<and> truthy (uei profile) \<and> truthy (duns profile)),
           details = ''Company name, UEI, and DUNS present'' \<rparr>,
       has_valid_naics =
         \<lparr> ok = (naics profile \<noteq> [] \<and> length (naics profile) > 0),
           details = ''At least one NAICS code provided'' \<rparr>,
       has_poc_info =
         \<lparr> ok = (truthy (poc_name profile) \<and> truthy (poc_email profile) \<and>
                 (case poc_email profile of None \<Rightarrow> False | Some e \<Rightarrow> validate_email e)),
           details = ''Complete POC information with valid email'' \<rparr>,
       has_sam_registration =
         \<lparr> ok = (sam_registered profile = Some True),
           details = ''SAM.gov registration confirmed'' \<rparr>,
       has_past_performance =
         \<lparr> ok = (truthy (customer performance) \<and> truthy (contract performance) \<and>
                 truthy (val performance)),
           details = ''Past performance information provided'' \<rparr>,
       overall_ok = (length issues = 0),
       total_issues = length issues \<rparr>"

section \<open>The pipeline\<close>

text \<open>
  The response of \<open>ingest_documents\<close> without its request identifier, a fresh random
  value. The body of the endpoint raises no exception on any text, so the handler that
  turns an exception into a processing error is never entered.
\<close>

record Response =
  parsed_profile :: CompanyProfile
  parsed_performance :: PastPerformance
  issues :: "string list"
  recommended_sins :: "string list"
  checklist :: Checklist

definition ingest_documents :: "string \<Rightarrow> string \<Rightarrow> Response" where
  "ingest_documents profile_text performance_text =
    (let company_profile = parse_company_profile profile_text;
         past_performance = parse_past_performance performance_text;
         issues = validate_fields company_profile past_performance;
         recommended_sins = map_naics_to_sins (naics company_profile);
         checklist = generate_checklist company_profile past_performance issues
     in \<lparr> parsed_profile = company_profile, parsed_performance = past_performance,
          issues = issues, recommended_sins = recommended_sins, checklist = checklist \<rparr>)"

section \<open>Notions used to state the properties\<close>

text \<open>A text given line by line: the lines joined by line breaks.\<close>

fun join_lines :: "string list \<Rightarrow> string" where
  "join_lines [] = []"
| "join_lines [l] = l"
| "join_lines (l # ls) = l @ nl # join_lines ls"

definition scenario_A_profile :: string where
  "scenario_A_profile = join_lines [''Acme Corp'', ''UEI: ABC123'', ''DUNS: 123456789'',
     ''NAICS: 541511, 541512'', ''POC: Jane Doe, jane@acme.com, 555-1234'',
     ''Address: 1 Main St'', ''SAM.gov: registered'']"

definition scenario_A_performance :: string where
  "scenario_A_performance = join_lines [''Customer: DoD'', ''Contract: C-100'',
     ''Value: $50000'', ''Period: 2023'', ''Contact: John'']"

text \<open>The fifteen conditions under which no issue is reported.\<close>

definition all_conditions :: "CompanyProfile \<Rightarrow> PastPerformance \<Rightarrow> bool" where
  "all_conditions p q =
     (truthy (company_name p) \<and> truthy (uei p) \<and> truthy (duns p) \<and> naics p \<noteq> [] \<and>
      truthy (poc_name p) \<and> truthy (poc_email p) \<and>
      (case poc_email p of None \<Rightarrow> False | Some e \<Rightarrow> validate_email e) \<and>
      truthy (poc_phone p) \<and> truthy (address p) \<and> sam_registered p \<noteq> None \<and>
      truthy (customer q) \<and> truthy (contract q) \<and> truthy (val q) \<and> truthy (period q) \<and>
      truthy (contact q))"

text \<open>A list without its repetitions, every element at its first occurrence.\<close>

fun first_seen :: "'a list \<Rightarrow> 'a list" where
  "first_seen [] = []"
| "first_seen (x # xs) = x # filter (\<lambda>y. y \<noteq> x) (first_seen xs)"

text \<open>\<open>ci_prefix l s\<close>: the text \<open>s\<close> starts with the label \<open>l\<close>, up to the case of letters.\<close>

fun ci_prefix :: "string \<Rightarrow> string \<Rightarrow> bool" where
  "ci_prefix [] s = True"
| "ci_prefix (p # ps) [] = False"
| "ci_prefix (p # ps) (c # cs) = (ci p c \<and> ci_prefix ps cs)"

text \<open>
  \<open>find_labelled l follows t\<close>: the text after the label \<open>l\<close>, at the leftmost place of \<open>t\<close>
  where the label stands and the text after it satisfies \<open>follows\<close>.
\<close>

fun find_labelled :: "string \<Rightarrow> (string \<Rightarrow> bool) \<Rightarrow> string \<Rightarrow> string option" where
  "find_labelled l follows [] = None"
| "find_labelled l follows (c # cs) =
     (if ci_prefix l (c # cs) \<and> follows (drop (length l) (c # cs))
      then Some (drop (length l) (c # cs)) else find_labelled l follows cs)"

text \<open>The word that follows a label, after optional whitespace.\<close>

definition following_word :: "string \<Rightarrow> string" where
  "following_word r = takeWhile is_word (dropWhile is_space r)"

definition word_follows :: "string \<Rightarrow> bool" where
  "word_follows r = (following_word r \<noteq> [])"

text \<open>
  The email format of the specification: a local part of letters, digits and \<open>._%+-\<close>,
  an at sign, domain labels of letters, digits, dots and hyphens, a dot, and a top-level
  domain of at least two letters.
\<close>

definition email_format :: "string \<Rightarrow> bool" where
  "email_format e =
     (\<exists>l d tld. e = l @ ''@'' @ d @ ''.'' @ tld \<and>
        l \<noteq> [] \<and> list_all local_char l \<and> d \<noteq> [] \<and> list_all domain_char d \<and>
        2 \<le> length tld \<and> list_all is_alpha tld)"

text \<open>
  \<open>blank_variant x y\<close>: the field value \<open>y\<close> is \<open>x\<close>, or \<open>x\<close> is the empty string and \<open>y\<close>
  is unset. The variants of a record replace any of its empty strings by the unset state.
\<close>

definition blank_variant :: "string option \<Rightarrow> string option \<Rightarrow> bool" where
  "blank_variant x y = (y = x \<or> (x = Some [] \<and> y = None))"

definition profile_variant :: "CompanyProfile \<Rightarrow> CompanyProfile \<Rightarrow> bool" where
  "profile_variant p p' =
     (blank_variant (company_name p) (company_name p') \<and> blank_variant (uei p) (uei p') \<and>
      blank_variant (duns p) (duns p') \<and> naics p' = naics p \<and>
      blank_variant (poc_name p) (poc_name p') \<and> blank_variant (poc_email p) (poc_email p') \<and>
      blank_variant (poc_phone p) (poc_phone p') \<and> blank_variant (address p) (address p') \<and>
      sam_registered p' = sam_registered p)"

definition performance_variant :: "PastPerformance \<Rightarrow> PastPerformance \<Rightarrow> bool" where
  "performance_variant q q' =
     (blank_variant (customer q) (customer q') \<and> blank_variant (contract q) (contract q') \<and>
      blank_variant (val q) (val q') \<and> blank_variant (period q) (period q') \<and>
      blank_variant (contact q) (contact q'))"

text \<open>
  The text after a label is searched for a value. \<open>run_after cls r\<close> is the run of
  characters of class \<open>cls\<close> that follows optional whitespace at the start of \<open>r\<close>, and
  \<open>run_value l cls t\<close> is that run at the leftmost place of \<open>t\<close> where the label \<open>l\<close> is
  followed by a non-empty one.
\<close>

definition run_after :: "(char \<Rightarrow> bool) \<Rightarrow> string \<Rightarrow> string" where
  "run_after cls r = takeWhile cls (dropWhile is_space r)"

definition run_follows :: "(char \<Rightarrow> bool) \<Rightarrow> string \<Rightarrow> bool" where
  "run_follows cls r = (run_after cls r \<noteq> [])"

definition run_value :: "string \<Rightarrow> (char \<Rightarrow> bool) \<Rightarrow> string \<Rightarrow> string option" where
  "run_value l cls t = map_option (run_after cls) (find_labelled l (run_follows cls) t)"

text \<open>
  \<open>rest_of_line r\<close> is the text from the first character of \<open>r\<close> that is not whitespace
  up to the end of its line; \<open>value_follows r\<close> says that \<open>r\<close> has a character other than
  a line break; \<open>line_value l t\<close> is the trimmed rest of the line at the leftmost place of
  \<open>t\<close> where the label \<open>l\<close> is followed by such a text.
\<close>

definition rest_of_line :: "string \<Rightarrow> string" where
  "rest_of_line r = takeWhile not_nl (dropWhile is_space r)"

definition value_follows :: "string \<Rightarrow> bool" where
  "value_follows r = (filter not_nl r \<noteq> [])"

definition line_value :: "string \<Rightarrow> string \<Rightarrow> string option" where
  "line_value l t = map_option (\<lambda>r. strip (rest_of_line r)) (find_labelled l value_follows t)"

text \<open>
  After the NAICS label: \<open>naics_follows r\<close> says that \<open>r\<close> starts with a digit, a comma or
  whitespace, and \<open>naics_run r\<close> is the run of digits, commas and whitespace after the
  leading whitespace of \<open>r\<close>.
\<close>

definition naics_follows :: "string \<Rightarrow> bool" where
  "naics_follows r = (case r of [] \<Rightarrow> False | c # cs \<Rightarrow> naics_char c)"

definition naics_run :: "string \<Rightarrow> string" where
  "naics_run r = takeWhile naics_char (dropWhile is_space r)"

text \<open>
  After the POC label: \<open>segment r\<close> is the text up to the next comma, \<open>after_comma r\<close> the
  text after that comma, and \<open>poc_follows r\<close> says that \<open>r\<close> has two commas, a non-empty
  segment before each of them, and a character other than a line break after the second.
\<close>

definition segment :: "string \<Rightarrow> string" where
  "segment r = takeWhile not_comma r"

definition has_comma :: "string \<Rightarrow> bool" where
  "has_comma r = (dropWhile not_comma r \<noteq> [])"

definition after_comma :: "string \<Rightarrow> string" where
  "after_comma r = tl (dropWhile not_comma r)"

definition poc_follows :: "string \<Rightarrow> bool" where
  "poc_follows r =
     (has_comma r \<and> segment r \<noteq> [] \<and>
      has_comma (after_comma r) \<and> segment (after_comma r) \<noteq> [] \<and>
      value_follows (after_comma (after_comma r)))"

text \<open>The part of \<open>poc_pat\<close> after its label.\<close>

definition poc_tail :: "atom list" where
  "poc_tail = [Rep 0 is_space, Cap (Suc 0) not_comma, Lit ((=) CHR '',''),
      Rep 0 is_space, Cap (Suc 0) not_comma, Lit ((=) CHR '',''),
      Rep 0 is_space, Cap (Suc 0) not_nl]"

text \<open>
  The line-oriented reading of extraction: \<open>label_rest l t\<close> is the text between the first
  occurrence of the label \<open>l\<close> in \<open>t\<close> and the end of its line, \<open>label_line l t\<close> the first
  line of \<open>t\<close> that contains the label, and \<open>occurs_in v s\<close> says that \<open>v\<close> is a
  contiguous part of \<open>s\<close>.
\<close>

definition label_rest :: "string \<Rightarrow> string \<Rightarrow> string" where
  "label_rest l t =
     (case find_labelled l (\<lambda>r. True) t of None \<Rightarrow> [] | Some r \<Rightarrow> takeWhile not_nl r)"

fun contains_label :: "string \<Rightarrow> string \<Rightarrow> bool" where
  "contains_label l [] = ci_prefix l []"
| "contains_label l (c # cs) = (ci_prefix l (c # cs) \<or> contains_label l cs)"

definition label_line :: "string \<Rightarrow> string \<Rightarrow> string option" where
  "label_line l t = find (contains_label l) (split_on nl t)"

fun occurs_in :: "string \<Rightarrow> string \<Rightarrow> bool" where
  "occurs_in v [] = (v = [])"
| "occurs_in v (c # cs) = (take (length v) (c # cs) = v \<or> occurs_in v cs)"

text \<open>Texts on which the line-oriented reading and the code differ.\<close>

definition cex_sam_text :: string where
  "cex_sam_text = ''SAM.gov: (pending)''"

definition cex_uei_text :: string where
  "cex_uei_text = join_lines [''UEI:'', ''DUNS: 123456789'']"

definition cex_naics_text :: string where
  "cex_naics_text = ''NAICS: 541511, 541512 (primary)''"

definition cex_poc_text :: string where
  "cex_poc_text = join_lines [''POC: Jane, jane@acme.com'', ''Address: 1 Main St, Suite 5'',
     ''SAM.gov: registered'']"

section \<open>Evaluation on concrete texts\<close>

declare re_match.simps [simp del]

lemmas eval_simps = re_match.simps char_of_eq_iff nl_def code_def is_space_def is_digit_def
  is_upper_def is_lower_def is_alpha_def is_alnum_def is_word_def not_nl_def not_comma_def
  naics_char_def local_char_def domain_char_def lower_code_def lower_char_def lower_def ci_def
  strip_def greedy_def label_def uei_pat_def duns_pat_def naics_pat_def poc_pat_def sam_pat_def
  line_pat_def first_line_def split_codes_def email_pat_def validate_email_def issue_def

lemma A_first_line: "first_line scenario_A_profile = Some ''Acme Corp''"
  by (simp add: scenario_A_profile_def eval_simps)

lemma A_uei: "re_search uei_pat scenario_A_profile = Some [''ABC123'']"
  by (simp add: scenario_A_profile_def eval_simps)

lemma A_duns: "re_search duns_pat scenario_A_profile = Some [''123456789'']"
  by (simp add: scenario_A_profile_def eval_simps)

lemma A_naics: "re_search naics_pat scenario_A_profile = Some [''541511, 541512\<newline>'']"
  by (simp add: scenario_A_profile_def eval_simps)

lemma A_codes: "split_codes ''541511, 541512\<newline>'' = [''541511'', ''541512'']"
  by (simp add: eval_simps)

lemma A_poc:
  "re_search poc_pat scenario_A_profile = Some [''Jane Doe'', ''jane@acme.com'', ''555-1234'']"
  by (simp add: scenario_A_profile_def eval_simps)

lemma A_address: "re_search (line_pat ''Address:'') scenario_A_profile = Some [''1 Main St'']"
  by (simp add: scenario_A_profile_def eval_simps)

lemma A_sam: "re_search sam_pat scenario_A_profile = Some [''registered'']"
  by (simp add: scenario_A_profile_def eval_simps)

lemma A_customer: "re_search (line_pat ''Customer:'') scenario_A_performance = Some [''DoD'']"
  by (simp add: scenario_A_performance_def eval_simps)

lemma A_contract: "re_search (line_pat ''Contract:'') scenario_A_performance = Some [''C-100'']"
  by (simp add: scenario_A_performance_def eval_simps)

lemma A_value: "re_search (line_pat ''Value:'') scenario_A_performance = Some [''$50000'']"
  by (simp add: scenario_A_performance_def eval_simps)

lemma A_period: "re_search (line_pat ''Period:'') scenario_A_performance = Some [''2023'']"
  by (simp add: scenario_A_performance_def eval_simps)

lemma A_contact: "re_search (line_pat ''Contact:'') scenario_A_performance = Some [''John'']"
  by (simp add: scenario_A_performance_def eval_simps)

lemma A_strips:
  "strip ''Jane Doe'' = ''Jane Doe''" "strip ''jane@acme.com'' = ''jane@acme.com''"
  "strip ''555-1234'' = ''555-1234''" "strip ''1 Main St'' = ''1 Main St''"
  "strip ''DoD'' = ''DoD''" "strip ''C-100'' = ''C-100''" "strip ''$50000'' = ''$50000''"
  "strip ''2023'' = ''2023''" "strip ''John'' = ''John''"
  by (simp_all add: eval_simps)

lemma A_lower: "lower ''registered'' = ''registered''"
  by (simp add: eval_simps)

lemma A_email: "validate_email ''jane@acme.com''"
  by (simp add: eval_simps)

lemma A_profile:
  "parse_company_profile scenario_A_profile =
     \<lparr> company_name = Some ''Acme Corp'', uei = Some ''ABC123'', duns = Some ''123456789'',
       naics = [''541511'', ''541512''], poc_name = Some ''Jane Doe'',
       poc_email = Some ''jane@acme.com'', poc_phone = Some ''555-1234'',
       address = Some ''1 Main St'', sam_registered = Some True \<rparr>"
  by (simp add: parse_company_profile_def A_first_line A_uei A_duns A_naics A_codes A_poc
      A_address A_sam A_strips A_lower)

lemma A_performance:
  "parse_past_performance scenario_A_performance =
     \<lparr> customer = Some ''DoD'', contract = Some ''C-100'', val = Some ''$50000'',
       period = Some ''2023'', contact = Some ''John'' \<rparr>"
  by (simp add: parse_past_performance_def A_customer A_contract A_value A_period A_contact
      A_strips)

lemma A_issues:
  "validate_fields (parse_company_profile scenario_A_profile)
     (parse_past_performance scenario_A_performance) = []"
  by (simp add: A_profile A_performance validate_fields_def issue_def A_email)

lemma A_naics_field: "naics (parse_company_profile scenario_A_profile) = [''541511'', ''541512'']"
  by (simp add: A_profile)

lemma A_sins: "map_naics_to_sins [''541511'', ''541512''] = [''54151S'']"
  by (simp add: map_naics_to_sins_def NAICS_SIN_MAPPING_def)

section \<open>Properties of the matcher\<close>

lemma first_some_map_None: "first_some (map f js) = None \<longleftrightarrow> (\<forall>j\<in>set js. f j = None)"
  by (induction js) (auto split: option.splits)

lemma greedy_Suc:
  "n \<le> K \<Longrightarrow> rev [n ..< Suc K] = K # rev [n ..< K]"
  by simp

lemma first_some_desc:
  "n \<le> j \<Longrightarrow> j \<le> K \<Longrightarrow> f j = Some x \<Longrightarrow> (\<And>i. j < i \<Longrightarrow> i \<le> K \<Longrightarrow> f i = None) \<Longrightarrow>
   first_some (map f (rev [n ..< Suc K])) = Some x"
proof (induction K)
  case 0
  then show ?case by simp
next
  case (Suc K)
  show ?case
  proof (cases "j = Suc K")
    case True
    then show ?thesis using Suc.prems by simp
  next
    case False
    then have jK: "j \<le> K" using Suc.prems by simp
    have "f (Suc K) = None" using Suc.prems(4)[of "Suc K"] jK by simp
    moreover have "first_some (map f (rev [n ..< Suc K])) = Some x"
      using Suc.IH[OF Suc.prems(1) jK Suc.prems(3)] Suc.prems(4) by simp
    ultimately show ?thesis using Suc.prems(1) jK by simp
  qed
qed

lemma re_match_label:
  "re_match (label l @ r) s = (if ci_prefix l s then re_match r (drop (length l) s) else None)"
proof (induction l arbitrary: s)
  case Nil
  then show ?case by (simp add: label_def)
next
  case (Cons p ps)
  then show ?case by (cases s) (auto simp: label_def re_match.simps)
qed

lemma re_match_Cap_end:
  "re_match [Cap n p] s = (if n \<le> length (takeWhile p s) then Some [takeWhile p s] else None)"
proof (cases "n \<le> length (takeWhile p s)")
  case True
  have "first_some (map (\<lambda>j. map_option ((#) (take j s)) (re_match [] (drop j s)))
          (rev [n ..< Suc (length (takeWhile p s))])) = Some [take (length (takeWhile p s)) s]"
    by (rule first_some_desc[where j = "length (takeWhile p s)"])
      (use True in \<open>auto simp: re_match.simps\<close>)
  then show ?thesis using True
    by (simp add: re_match.simps greedy_def takeWhile_eq_take[symmetric])
next
  case False
  then show ?thesis by (simp add: re_match.simps greedy_def)
qed

lemma re_search_label:
  assumes "l \<noteq> []" and "\<And>r. re_match tail r \<noteq> None \<longleftrightarrow> follows r"
  shows "re_search (label l @ tail) t =
    (case find_labelled l follows t of None \<Rightarrow> None | Some r \<Rightarrow> re_match tail r)"
proof (induction t)
  case Nil
  then show ?case using assms(1) by (cases l) (auto simp: re_match_label)
next
  case (Cons c cs)
  show ?case
  proof (cases "ci_prefix l (c # cs) \<and> follows (drop (length l) (c # cs))")
    case True
    then obtain g where "re_match tail (drop (length l) (c # cs)) = Some g"
      using assms(2) by auto
    then show ?thesis using True by (simp add: re_match_label)
  next
    case False
    have "re_match tail r = None" if "\<not> follows r" for r
      using assms(2)[of r] that by simp
    with False have "re_match (label l @ tail) (c # cs) = None"
      by (auto simp: re_match_label)
    then show ?thesis using False Cons by auto
  qed
qed

lemma drop_takeWhile_space:
  "j < length (takeWhile P s) \<Longrightarrow> \<exists>c r. drop j s = c # r \<and> P c"
proof -
  assume a: "j < length (takeWhile P s)"
  have "j < length s" using a length_takeWhile_le[of P s] by simp
  then have "drop j s = s ! j # drop (Suc j) s" by (simp add: Cons_nth_drop_Suc)
  moreover have "P (s ! j)" using a by (metis nth_mem set_takeWhileD takeWhile_nth)
  ultimately show ?thesis by blast
qed

lemma tail_disjoint:
  assumes "\<And>c. cls c \<Longrightarrow> \<not> is_space c"
  shows "re_match [Rep 0 is_space, Cap (Suc 0) cls] r =
    (if takeWhile cls (dropWhile is_space r) = [] then None
     else Some [takeWhile cls (dropWhile is_space r)])"
proof -
  let ?K = "length (takeWhile is_space r)"
  let ?f = "\<lambda>j. re_match [Cap (Suc 0) cls] (drop j r)"
  have low: "?f j = None" if jK: "j < ?K" for j
  proof -
    obtain c r' where "drop j r = c # r'" "is_space c"
      using drop_takeWhile_space[OF jK] by blast
    then show ?thesis using assms by (auto simp: re_match_Cap_end)
  qed
  have top: "?f ?K = (if takeWhile cls (dropWhile is_space r) = [] then None
     else Some [takeWhile cls (dropWhile is_space r)])"
    by (auto simp: re_match_Cap_end dropWhile_eq_drop[symmetric] Suc_le_eq)
  show ?thesis
  proof (cases "takeWhile cls (dropWhile is_space r) = []")
    case True
    have "\<forall>j\<in>set (greedy 0 is_space r). ?f j = None"
    proof
      fix j assume "j \<in> set (greedy 0 is_space r)"
      then have "j \<le> ?K" by (auto simp: greedy_def)
      then show "?f j = None" using low[of j] top True by (cases "j = ?K") auto
    qed
    then show ?thesis using True
      unfolding re_match.simps(3)[of 0 is_space "[Cap (Suc 0) cls]" r]
      by (simp add: first_some_map_None)
  next
    case False
    have "first_some (map ?f (rev [0 ..< Suc ?K])) = Some [takeWhile cls (dropWhile is_space r)]"
      by (rule first_some_desc[where j = ?K]) (use False top in auto)
    then show ?thesis using False
      unfolding re_match.simps(3)[of 0 is_space "[Cap (Suc 0) cls]" r]
      by (simp add: greedy_def)
  qed
qed

lemma first_some_map_Some: "first_some (map f js) \<noteq> None \<longleftrightarrow> (\<exists>j\<in>set js. f j \<noteq> None)"
  by (induction js) (auto split: option.splits)

lemma re_match_Rep_accepts:
  "re_match (Rep n p # r) s \<noteq> None \<longleftrightarrow>
   (\<exists>j. n \<le> j \<and> j \<le> length (takeWhile p s) \<and> re_match r (drop j s) \<noteq> None)"
  unfolding re_match.simps first_some_map_Some greedy_def by auto

lemma word_not_space: "is_word c \<Longrightarrow> \<not> is_space c"
  by (auto simp: is_word_def is_space_def is_alnum_def is_alpha_def is_upper_def is_lower_def
      is_digit_def Let_def)

lemma profile_fields:
  "company_name (parse_company_profile t) = first_line t"
  "uei (parse_company_profile t) = group1 (re_search uei_pat t)"
  "duns (parse_company_profile t) = group1 (re_search duns_pat t)"
  "naics (parse_company_profile t) =
     (case re_search naics_pat t of Some (g # gs) \<Rightarrow> split_codes g | _ \<Rightarrow> [])"
  "poc_name (parse_company_profile t) =
     (case re_search poc_pat t of Some [g1, g2, g3] \<Rightarrow> Some (strip g1) | _ \<Rightarrow> None)"
  "poc_email (parse_company_profile t) =
     (case re_search poc_pat t of Some [g1, g2, g3] \<Rightarrow> Some (strip g2) | _ \<Rightarrow> None)"
  "poc_phone (parse_company_profile t) =
     (case re_search poc_pat t of Some [g1, g2, g3] \<Rightarrow> Some (strip g3) | _ \<Rightarrow> None)"
  "address (parse_company_profile t) =
     map_option strip (group1 (re_search (line_pat ''Address:'') t))"
  "sam_registered (parse_company_profile t) =
     map_option (\<lambda>g. lower g = ''registered'') (group1 (re_search sam_pat t))"
  by (simp_all add: parse_company_profile_def Let_def)

section \<open>Properties of extraction\<close>

lemma first_some_desc_ex:
  assumes "\<exists>j. n \<le> j \<and> j \<le> K \<and> f j \<noteq> None"
  shows "\<exists>j x. n \<le> j \<and> j \<le> K \<and> f j = Some x \<and> (\<forall>i. j < i \<and> i \<le> K \<longrightarrow> f i = None) \<and>
    first_some (map f (rev [n ..< Suc K])) = Some x"
  using assms
proof (induction K)
  case 0
  then obtain x where "n = 0" "f 0 = Some x" by auto
  then show ?case by auto
next
  case (Suc K)
  show ?case
  proof (cases "f (Suc K)")
    case None
    then have "\<exists>j. n \<le> j \<and> j \<le> K \<and> f j \<noteq> None"
      using Suc.prems by (metis le_SucE)
    then obtain j x where j: "n \<le> j" "j \<le> K" "f j = Some x"
      "\<forall>i. j < i \<and> i \<le> K \<longrightarrow> f i = None"
      "first_some (map f (rev [n ..< Suc K])) = Some x"
      using Suc.IH by blast
    have "\<forall>i. j < i \<and> i \<le> Suc K \<longrightarrow> f i = None"
      using j(4) None by (metis le_SucE)
    moreover have "first_some (map f (rev [n ..< Suc (Suc K)])) = Some x"
      using j(1,2,5) None by simp
    ultimately show ?thesis using j(1,2,3) by (intro exI[of _ j] exI[of _ x]) simp
  next
    case (Some x)
    from Suc.prems obtain j where "n \<le> j" "j \<le> Suc K" by blast
    then have n: "n \<le> Suc K" by simp
    then have "first_some (map f (rev [n ..< Suc (Suc K)])) = Some x"
      using Some by simp
    then show ?thesis using Some n by (intro exI[of _ "Suc K"] exI[of _ x]) auto
  qed
qed

lemma tail_None:
  assumes "\<And>j. j \<le> length (takeWhile is_space r) \<Longrightarrow> takeWhile cls (drop j r) = []"
  shows "re_match [Rep 0 is_space, Cap (Suc 0) cls] r = None"
  unfolding re_match.simps(3)[of 0 is_space "[Cap (Suc 0) cls]" r] first_some_map_None
  using assms by (auto simp: greedy_def re_match_Cap_end)

lemma tail_Some:
  assumes "j \<le> length (takeWhile is_space r)" "takeWhile cls (drop j r) \<noteq> []"
  shows "\<exists>i \<le> length (takeWhile is_space r). j \<le> i \<and> takeWhile cls (drop i r) \<noteq> [] \<and>
    re_match [Rep 0 is_space, Cap (Suc 0) cls] r = Some [takeWhile cls (drop i r)]"
proof -
  let ?K = "length (takeWhile is_space r)"
  let ?f = "\<lambda>j. re_match [Cap (Suc 0) cls] (drop j r)"
  have "\<exists>j. 0 \<le> j \<and> j \<le> ?K \<and> ?f j \<noteq> None"
    using assms by (intro exI[of _ j]) (simp add: re_match_Cap_end Suc_le_eq)
  from first_some_desc_ex[OF this]
  obtain i x where i: "i \<le> ?K" "?f i = Some x" "\<forall>k. i < k \<and> k \<le> ?K \<longrightarrow> ?f k = None"
    "first_some (map ?f (rev [0 ..< Suc ?K])) = Some x" by blast
  have x: "x = [takeWhile cls (drop i r)]" "takeWhile cls (drop i r) \<noteq> []"
    using i(2) by (auto simp: re_match_Cap_end split: if_splits)
  have "j \<le> i"
  proof (rule ccontr)
    assume "\<not> j \<le> i"
    then have "?f j = None" using i(3) assms(1) by simp
    then show False using assms(2) by (simp add: re_match_Cap_end Suc_le_eq)
  qed
  moreover have "re_match [Rep 0 is_space, Cap (Suc 0) cls] r = Some [takeWhile cls (drop i r)]"
    unfolding re_match.simps(3)[of 0 is_space "[Cap (Suc 0) cls]" r]
    using i(4) x(1) by (simp add: greedy_def)
  ultimately show ?thesis using i(1) x(2) by blast
qed

lemma nl_space: "is_space nl"
  by (simp add: is_space_def nl_def code_def)

lemma space_not_comma: "is_space c \<Longrightarrow> c \<noteq> CHR '',''"
  by (auto simp: is_space_def code_def)

lemma strip_spaces:
  assumes "\<And>c. c \<in> set g \<Longrightarrow> is_space c"
  shows "strip g = []"
  using assms by (auto simp: strip_def dest: set_dropWhileD)

lemma drop_length_takeWhile: "drop (length (takeWhile P r)) r = dropWhile P r"
  by (simp add: dropWhile_eq_drop)

lemma line_tail_None:
  assumes "\<not> value_follows r"
  shows "re_match [Rep 0 is_space, Cap (Suc 0) not_nl] r = None"
proof (rule tail_None)
  fix j
  have "\<And>c. c \<in> set r \<Longrightarrow> \<not> not_nl c"
    using assms by (auto simp: value_follows_def filter_empty_conv)
  then have "\<And>c. c \<in> set (drop j r) \<Longrightarrow> \<not> not_nl c"
    using in_set_dropD by fastforce
  then show "takeWhile not_nl (drop j r) = []"
    by (cases "drop j r") auto
qed

lemma line_tail_Some:
  assumes "value_follows r"
  shows "\<exists>g. re_match [Rep 0 is_space, Cap (Suc 0) not_nl] r = Some [g] \<and>
    strip g = strip (rest_of_line r)"
proof (cases "dropWhile is_space r")
  case (Cons c cs)
  let ?K = "length (takeWhile is_space r)"
  have "\<not> is_space c" using Cons by (metis hd_dropWhile list.distinct(1) list.sel(1))
  then have "not_nl c" using nl_space by (auto simp: not_nl_def)
  then have "takeWhile not_nl (drop ?K r) \<noteq> []"
    by (simp add: drop_length_takeWhile Cons)
  from tail_Some[OF le_refl this]
  have "re_match [Rep 0 is_space, Cap (Suc 0) not_nl] r = Some [takeWhile not_nl (drop ?K r)]"
    by (metis le_antisym)
  then show ?thesis by (simp add: drop_length_takeWhile rest_of_line_def)
next
  case Nil
  then have sp: "\<And>c. c \<in> set r \<Longrightarrow> is_space c" by simp
  then have K: "length (takeWhile is_space r) = length r"
    by (metis takeWhile_eq_all_conv)
  obtain c where c: "c \<in> set r" "not_nl c"
    using assms by (auto simp: value_follows_def filter_empty_conv)
  then obtain j where j: "j < length r" "r ! j = c" by (meson in_set_conv_nth)
  then have "takeWhile not_nl (drop j r) \<noteq> []"
    using c(2) by (simp add: Cons_nth_drop_Suc[symmetric])
  from tail_Some[OF _ this] j(1) K
  obtain i where i: "re_match [Rep 0 is_space, Cap (Suc 0) not_nl] r =
      Some [takeWhile not_nl (drop i r)]" by auto
  have "\<And>c. c \<in> set (takeWhile not_nl (drop i r)) \<Longrightarrow> is_space c"
    using sp by (meson in_set_dropD set_takeWhileD)
  then have "strip (takeWhile not_nl (drop i r)) = []" by (rule strip_spaces)
  moreover have "strip (rest_of_line r) = []"
    unfolding rest_of_line_def Nil by (simp add: strip_def)
  ultimately show ?thesis using i by simp
qed

lemma line_tail_iff:
  "re_match [Rep 0 is_space, Cap (Suc 0) not_nl] r \<noteq> None \<longleftrightarrow> value_follows r"
  using line_tail_None[of r] line_tail_Some[of r] by (cases "value_follows r") auto

lemma split_codes_spaces:
  assumes "\<And>c. c \<in> set g \<Longrightarrow> is_space c"
  shows "split_codes g = []"
proof -
  have "split_on CHR '','' g = [g]" using assms
  proof (induction g)
    case Nil
    then show ?case by simp
  next
    case (Cons a g)
    then show ?case using space_not_comma[of a] by simp
  qed
  then show ?thesis using strip_spaces[OF assms] by (simp add: split_codes_def)
qed

lemma naics_tail_None:
  assumes "\<not> naics_follows r"
  shows "re_match [Rep 0 is_space, Cap (Suc 0) naics_char] r = None"
proof (rule tail_None)
  fix j assume j: "j \<le> length (takeWhile is_space r)"
  show "takeWhile naics_char (drop j r) = []"
  proof (cases r)
    case Nil
    then show ?thesis by simp
  next
    case (Cons c cs)
    then have "\<not> naics_char c" using assms by (simp add: naics_follows_def)
    then have "\<not> is_space c" by (simp add: naics_char_def)
    then have "j = 0" using j Cons by simp
    then show ?thesis using Cons \<open>\<not> naics_char c\<close> by simp
  qed
qed

lemma naics_tail_Some:
  assumes "naics_follows r"
  shows "\<exists>g. re_match [Rep 0 is_space, Cap (Suc 0) naics_char] r = Some [g] \<and>
    split_codes g = split_codes (naics_run r)"
proof (cases "naics_run r = []")
  case False
  let ?K = "length (takeWhile is_space r)"
  have "takeWhile naics_char (drop ?K r) \<noteq> []"
    using False by (simp add: drop_length_takeWhile naics_run_def)
  from tail_Some[OF le_refl this]
  have "re_match [Rep 0 is_space, Cap (Suc 0) naics_char] r =
      Some [takeWhile naics_char (drop ?K r)]"
    by (metis le_antisym)
  then show ?thesis by (simp add: drop_length_takeWhile naics_run_def)
next
  case True
  let ?ws = "takeWhile is_space r"
  obtain c cs where r: "r = c # cs" "naics_char c"
    using assms by (auto simp: naics_follows_def split: list.splits)
  have "takeWhile naics_char (drop 0 r) \<noteq> []" using r by simp
  from tail_Some[OF _ this]
  obtain i where i: "i \<le> length ?ws"
    "re_match [Rep 0 is_space, Cap (Suc 0) naics_char] r = Some [takeWhile naics_char (drop i r)]"
    by auto
  have "drop i r = drop i ?ws @ dropWhile is_space r"
    using i(1) by (metis drop_append diff_is_0_eq' drop0 takeWhile_dropWhile_id)
  moreover have "\<And>x. x \<in> set (drop i ?ws) \<Longrightarrow> naics_char x"
    by (metis in_set_dropD naics_char_def set_takeWhileD)
  ultimately have "takeWhile naics_char (drop i r) = drop i ?ws"
    using True by (simp add: naics_run_def)
  moreover have "\<And>x. x \<in> set (drop i ?ws) \<Longrightarrow> is_space x"
    by (metis in_set_dropD set_takeWhileD)
  ultimately have "split_codes (takeWhile naics_char (drop i r)) = []"
    using split_codes_spaces by simp
  moreover have "split_codes [] = []" by (simp add: split_codes_def strip_def)
  ultimately show ?thesis using i(2) True by simp
qed

lemma naics_tail_iff:
  "re_match [Rep 0 is_space, Cap (Suc 0) naics_char] r \<noteq> None \<longleftrightarrow> naics_follows r"
  using naics_tail_None[of r] naics_tail_Some[of r] by (cases "naics_follows r") auto

lemma space_nc: "is_space c \<Longrightarrow> not_comma c"
  using space_not_comma by (simp add: not_comma_def)

lemma cap_lit:
  "re_match (Cap (Suc 0) not_comma # Lit ((=) CHR '','') # rest) s =
     (case dropWhile not_comma s of [] \<Rightarrow> None
      | c # s2 \<Rightarrow> if takeWhile not_comma s = [] then None
                  else map_option ((#) (takeWhile not_comma s)) (re_match rest s2))"
proof -
  let ?K = "length (takeWhile not_comma s)"
  let ?f = "\<lambda>j. map_option ((#) (take j s)) (re_match (Lit ((=) CHR '','') # rest) (drop j s))"
  have low: "?f j = None" if jK: "j < ?K" for j
  proof -
    obtain c r' where "drop j s = c # r'" "not_comma c"
      using drop_takeWhile_space[OF jK] by blast
    then show ?thesis by (simp add: re_match.simps(2) not_comma_def)
  qed
  let ?X = "case dropWhile not_comma s of [] \<Rightarrow> None
      | c # s2 \<Rightarrow> map_option ((#) (takeWhile not_comma s)) (re_match rest s2)"
  let ?R = "case dropWhile not_comma s of [] \<Rightarrow> None
      | c # s2 \<Rightarrow> if takeWhile not_comma s = [] then None
                  else map_option ((#) (takeWhile not_comma s)) (re_match rest s2)"
  have top: "?f ?K = ?X"
  proof (cases "dropWhile not_comma s")
    case Nil
    show ?thesis unfolding drop_length_takeWhile Nil by (simp add: re_match.simps(2))
  next
    case (Cons c s2)
    then have "\<not> not_comma c" by (metis hd_dropWhile list.distinct(1) list.sel(1))
    then have "c = CHR '',''" by (simp add: not_comma_def)
    then show ?thesis using Cons
      by (simp add: drop_length_takeWhile re_match.simps(2) takeWhile_eq_take[symmetric])
  qed
  have e: "re_match (Cap (Suc 0) not_comma # Lit ((=) CHR '','') # rest) s =
      first_some (map ?f (rev [Suc 0 ..< Suc ?K]))"
    unfolding re_match.simps(4) greedy_def ..
  show ?thesis
  proof (cases "takeWhile not_comma s = []")
    case True
    then have "first_some (map ?f (rev [Suc 0 ..< Suc ?K])) = None" by simp
    moreover have "?R = None" using True
      by (cases "dropWhile not_comma s") (simp_all del: dropWhile_eq_Nil_conv)
    ultimately show ?thesis using e by simp
  next
    case False
    then have K: "Suc 0 \<le> ?K" by (cases "takeWhile not_comma s") auto
    have RX: "?R = ?X" using False
      by (cases "dropWhile not_comma s") (simp_all del: dropWhile_eq_Nil_conv)
    show ?thesis
    proof (cases "?f ?K")
      case None
      have "\<forall>j\<in>set (rev [Suc 0 ..< Suc ?K]). ?f j = None"
      proof
        fix j assume "j \<in> set (rev [Suc 0 ..< Suc ?K])"
        then have "j \<le> ?K" by auto
        then show "?f j = None" using low[of j] None by (cases "j = ?K") auto
      qed
      then have l: "first_some (map ?f (rev [Suc 0 ..< Suc ?K])) = None"
        by (simp only: first_some_map_None)
      have "?X = None" by (rule trans[OF top[symmetric] None])
      then show ?thesis using l e RX by simp
    next
      case (Some x)
      have X: "?X = Some x" by (rule trans[OF top[symmetric] Some])
      have l: "first_some (map ?f (rev [Suc 0 ..< Suc ?K])) = Some x"
        by (rule first_some_desc[where j = ?K]) (use K Some in auto)
      show ?thesis using l e X RX by simp
    qed
  qed
qed

lemma drop_in_segment:
  assumes "j \<le> length (takeWhile P r)"
  shows "takeWhile P (drop j r) = drop j (takeWhile P r)" "dropWhile P (drop j r) = dropWhile P r"
proof -
  have "drop j (takeWhile P r @ dropWhile P r) =
      drop j (takeWhile P r) @ drop (j - length (takeWhile P r)) (dropWhile P r)"
    by (rule drop_append)
  then have r: "drop j r = drop j (takeWhile P r) @ dropWhile P r"
    using assms by simp
  have a: "\<And>x. x \<in> set (drop j (takeWhile P r)) \<Longrightarrow> P x"
    using in_set_dropD set_takeWhileD by fast
  have b: "takeWhile P (dropWhile P r) = []"
    by (induction r) auto
  show "takeWhile P (drop j r) = drop j (takeWhile P r)"
    unfolding r using a b by simp
  show "dropWhile P (drop j r) = dropWhile P r"
    unfolding r using a by simp
qed

lemma seg_None:
  assumes "dropWhile not_comma r = [] \<or> takeWhile not_comma r = []"
  shows "re_match (Rep 0 is_space # Cap (Suc 0) not_comma # Lit ((=) CHR '','') # rest) r = None"
proof -
  let ?K = "length (takeWhile is_space r)"
  have le: "?K \<le> length (takeWhile not_comma r)"
    by (induction r) (auto simp: space_nc)
  have "re_match (Cap (Suc 0) not_comma # Lit ((=) CHR '','') # rest) (drop j r) = None"
    if "j \<le> ?K" for j
    using assms drop_in_segment[of j not_comma r] that le
    by (auto simp: cap_lit simp del: dropWhile_eq_Nil_conv takeWhile_eq_all_conv
        split: list.splits)
  then show ?thesis
    by (simp add: re_match.simps(3) first_some_map_None greedy_def)
qed

lemma strip_dropWhile: "strip (dropWhile is_space x) = strip x"
  by (simp add: strip_def)

lemma takeWhile_space_segment:
  "takeWhile is_space (takeWhile not_comma r) = takeWhile is_space r"
  by (induction r) (auto simp: space_nc)

lemma seg_Some:
  assumes d: "dropWhile not_comma r = c # r2" and t: "takeWhile not_comma r \<noteq> []"
  shows "\<exists>g. strip g = strip (takeWhile not_comma r) \<and>
    re_match (Rep 0 is_space # Cap (Suc 0) not_comma # Lit ((=) CHR '','') # rest) r =
      map_option ((#) g) (re_match rest r2)"
proof -
  let ?pre = "takeWhile not_comma r"
  let ?K = "length (takeWhile is_space r)"
  let ?f = "\<lambda>j. re_match (Cap (Suc 0) not_comma # Lit ((=) CHR '','') # rest) (drop j r)"
  have le: "?K \<le> length ?pre"
    by (induction r) (auto simp: space_nc)
  have f: "?f j = (if drop j ?pre = [] then None
      else map_option ((#) (drop j ?pre)) (re_match rest r2))" if "j \<le> ?K" for j
    using drop_in_segment[of j not_comma r] that le d by (simp add: cap_lit)
  have e: "re_match (Rep 0 is_space # Cap (Suc 0) not_comma # Lit ((=) CHR '','') # rest) r =
      first_some (map ?f (rev [0 ..< Suc ?K]))"
    unfolding re_match.simps(3) greedy_def ..
  show ?thesis
  proof (cases "re_match rest r2")
    case None
    have "\<forall>j\<in>set (rev [0 ..< Suc ?K]). ?f j = None"
      using f None by auto
    then have "first_some (map ?f (rev [0 ..< Suc ?K])) = None"
      by (simp only: first_some_map_None)
    then show ?thesis using e None by (intro exI[of _ ?pre]) simp
  next
    case (Some gs)
    define j where "j = (if ?K < length ?pre then ?K else ?K - 1)"
    have jK: "j \<le> ?K" by (simp add: j_def)
    have jp: "j < length ?pre" using t le by (cases ?pre) (auto simp: j_def)
    have fj: "?f j = Some (drop j ?pre # gs)"
      using f[OF jK] jp Some by simp
    have above: "?f i = None" if "j < i" "i \<le> ?K" for i
    proof -
      have "length ?pre \<le> i" using that le by (auto simp: j_def split: if_splits)
      then show ?thesis using f[OF that(2)] by simp
    qed
    have l: "first_some (map ?f (rev [0 ..< Suc ?K])) = Some (drop j ?pre # gs)"
      by (rule first_some_desc[where j = j]) (use jK fj above in auto)
    have "strip (drop j ?pre) = strip ?pre"
    proof (cases "?K < length ?pre")
      case True
      have "drop ?K ?pre = dropWhile is_space ?pre"
        using drop_length_takeWhile[of is_space ?pre] by (simp add: takeWhile_space_segment)
      then show ?thesis using True by (simp add: j_def strip_dropWhile)
    next
      case False
      then have "length (takeWhile is_space ?pre) = length ?pre"
        using le by (simp add: takeWhile_space_segment)
      then have "takeWhile is_space ?pre = ?pre"
        by (metis append_eq_conv_conj takeWhile_dropWhile_id take_all le_refl)
      then have sp: "\<And>x. x \<in> set ?pre \<Longrightarrow> is_space x"
        by (metis set_takeWhileD)
      then have "\<And>x. x \<in> set (drop j ?pre) \<Longrightarrow> is_space x"
        using in_set_dropD by fast
      then have "strip (drop j ?pre) = []" by (rule strip_spaces)
      moreover have "strip ?pre = []" using sp by (rule strip_spaces)
      ultimately show ?thesis by simp
    qed
    then show ?thesis using l e Some by (intro exI[of _ "drop j ?pre"]) simp
  qed
qed

lemma poc_tail_None:
  assumes "\<not> poc_follows r"
  shows "re_match poc_tail r = None"
proof (cases "has_comma r \<and> segment r \<noteq> []")
  case False
  then show ?thesis unfolding poc_tail_def
    by (intro seg_None) (auto simp: has_comma_def segment_def)
next
  case True
  then obtain c r2 where d: "dropWhile not_comma r = c # r2"
    by (cases "dropWhile not_comma r") (auto simp: has_comma_def)
  then have r2: "after_comma r = r2" by (simp add: after_comma_def)
  from seg_Some[OF d] True obtain g1 where
    g1: "re_match poc_tail r = map_option ((#) g1)
      (re_match [Rep 0 is_space, Cap (Suc 0) not_comma, Lit ((=) CHR '',''),
         Rep 0 is_space, Cap (Suc 0) not_nl] r2)"
    unfolding poc_tail_def segment_def by blast
  show ?thesis
  proof (cases "has_comma r2 \<and> segment r2 \<noteq> []")
    case False
    then have "re_match [Rep 0 is_space, Cap (Suc 0) not_comma, Lit ((=) CHR '',''),
         Rep 0 is_space, Cap (Suc 0) not_nl] r2 = None"
      by (intro seg_None) (auto simp: has_comma_def segment_def)
    then show ?thesis using g1 by simp
  next
    case T2: True
    then obtain c2 r3 where d2: "dropWhile not_comma r2 = c2 # r3"
      by (cases "dropWhile not_comma r2") (auto simp: has_comma_def)
    then have r3: "after_comma r2 = r3" by (simp add: after_comma_def)
    from seg_Some[OF d2] T2 obtain g2 where
      g2: "re_match [Rep 0 is_space, Cap (Suc 0) not_comma, Lit ((=) CHR '',''),
         Rep 0 is_space, Cap (Suc 0) not_nl] r2 =
        map_option ((#) g2) (re_match [Rep 0 is_space, Cap (Suc 0) not_nl] r3)"
      unfolding segment_def by blast
    have "\<not> value_follows r3"
      using assms True T2 r2 r3 by (simp add: poc_follows_def)
    then show ?thesis using g1 g2 line_tail_None by simp
  qed
qed

lemma poc_tail_Some:
  assumes "poc_follows r"
  shows "\<exists>g1 g2 g3. re_match poc_tail r = Some [g1, g2, g3] \<and>
    strip g1 = strip (segment r) \<and> strip g2 = strip (segment (after_comma r)) \<and>
    strip g3 = strip (rest_of_line (after_comma (after_comma r)))"
proof -
  from assms obtain c r2 where d: "dropWhile not_comma r = c # r2"
    by (cases "dropWhile not_comma r") (auto simp: poc_follows_def has_comma_def)
  then have r2: "after_comma r = r2" by (simp add: after_comma_def)
  from assms r2 obtain c2 r3 where d2: "dropWhile not_comma r2 = c2 # r3"
    by (cases "dropWhile not_comma r2") (auto simp: poc_follows_def has_comma_def)
  then have r3: "after_comma r2 = r3" by (simp add: after_comma_def)
  have s1: "takeWhile not_comma r \<noteq> []" and s2: "takeWhile not_comma r2 \<noteq> []"
    and v: "value_follows r3"
    using assms r2 r3 by (simp_all add: poc_follows_def segment_def)
  from seg_Some[OF d s1] obtain g1 where
    g1: "strip g1 = strip (segment r)" "re_match poc_tail r = map_option ((#) g1)
      (re_match [Rep 0 is_space, Cap (Suc 0) not_comma, Lit ((=) CHR '',''),
         Rep 0 is_space, Cap (Suc 0) not_nl] r2)"
    unfolding poc_tail_def segment_def by blast
  from seg_Some[OF d2 s2] obtain g2 where
    g2: "strip g2 = strip (segment r2)"
      "re_match [Rep 0 is_space, Cap (Suc 0) not_comma, Lit ((=) CHR '',''),
         Rep 0 is_space, Cap (Suc 0) not_nl] r2 =
        map_option ((#) g2) (re_match [Rep 0 is_space, Cap (Suc 0) not_nl] r3)"
    unfolding segment_def by blast
  from line_tail_Some[OF v] obtain g3 where
    g3: "re_match [Rep 0 is_space, Cap (Suc 0) not_nl] r3 = Some [g3]"
      "strip g3 = strip (rest_of_line r3)" by blast
  show ?thesis
    using g1 g2 g3 r2 r3 by (intro exI[of _ g1] exI[of _ g2] exI[of _ g3]) simp
qed

lemma find_labelled_follows: "find_labelled l f t = Some r \<Longrightarrow> f r"
  by (induction t) (auto split: if_splits)

lemma run_search:
  assumes "l \<noteq> []" and "\<And>c. cls c \<Longrightarrow> \<not> is_space c"
  shows "group1 (re_search (label l @ [Rep 0 is_space, Cap (Suc 0) cls]) t) = run_value l cls t"
proof -
  have t: "re_match [Rep 0 is_space, Cap (Suc 0) cls] r =
      (if run_after cls r = [] then None else Some [run_after cls r])" for r
    unfolding run_after_def by (rule tail_disjoint) (rule assms(2))
  have "re_search (label l @ [Rep 0 is_space, Cap (Suc 0) cls]) t =
     (case find_labelled l (run_follows cls) t of None \<Rightarrow> None
      | Some r \<Rightarrow> re_match [Rep 0 is_space, Cap (Suc 0) cls] r)"
    by (rule re_search_label) (simp_all add: assms(1) t run_follows_def)
  then show ?thesis
    using find_labelled_follows[of l "run_follows cls" t]
    by (auto simp: t run_value_def run_follows_def split: option.splits)
qed

lemma line_search:
  assumes "l \<noteq> []"
  shows "map_option strip (group1 (re_search (line_pat l) t)) = line_value l t"
proof -
  have "re_search (label l @ [Rep 0 is_space, Cap (Suc 0) not_nl]) t =
     (case find_labelled l value_follows t of None \<Rightarrow> None
      | Some r \<Rightarrow> re_match [Rep 0 is_space, Cap (Suc 0) not_nl] r)"
    by (rule re_search_label[OF assms line_tail_iff])
  then have e: "re_search (line_pat l) t =
     (case find_labelled l value_follows t of None \<Rightarrow> None
      | Some r \<Rightarrow> re_match [Rep 0 is_space, Cap (Suc 0) not_nl] r)"
    by (simp add: line_pat_def)
  show ?thesis
  proof (cases "find_labelled l value_follows t")
    case None
    then show ?thesis using e by (simp add: line_value_def)
  next
    case (Some r)
    then have "value_follows r" by (rule find_labelled_follows)
    from line_tail_Some[OF this] obtain g where
      "re_match [Rep 0 is_space, Cap (Suc 0) not_nl] r = Some [g]"
      "strip g = strip (rest_of_line r)" by blast
    then show ?thesis using e Some by (simp add: line_value_def)
  qed
qed

lemma naics_search:
  "naics (parse_company_profile t) =
     (case find_labelled ''NAICS:'' naics_follows t of None \<Rightarrow> []
      | Some r \<Rightarrow> split_codes (naics_run r))"
proof -
  have "re_search (label ''NAICS:'' @ [Rep 0 is_space, Cap (Suc 0) naics_char]) t =
     (case find_labelled ''NAICS:'' naics_follows t of None \<Rightarrow> None
      | Some r \<Rightarrow> re_match [Rep 0 is_space, Cap (Suc 0) naics_char] r)"
    by (rule re_search_label[OF _ naics_tail_iff]) simp
  then have e: "re_search naics_pat t =
     (case find_labelled ''NAICS:'' naics_follows t of None \<Rightarrow> None
      | Some r \<Rightarrow> re_match [Rep 0 is_space, Cap (Suc 0) naics_char] r)"
    by (simp add: naics_pat_def)
  show ?thesis
  proof (cases "find_labelled ''NAICS:'' naics_follows t")
    case None
    then show ?thesis using e by (simp add: profile_fields)
  next
    case (Some r)
    then have "naics_follows r" by (rule find_labelled_follows)
    from naics_tail_Some[OF this] obtain g where
      "re_match [Rep 0 is_space, Cap (Suc 0) naics_char] r = Some [g]"
      "split_codes g = split_codes (naics_run r)" by blast
    then show ?thesis using e Some by (simp add: profile_fields)
  qed
qed

lemma poc_search:
  "case find_labelled ''POC:'' poc_follows t of
     None \<Rightarrow> re_search poc_pat t = None
   | Some r \<Rightarrow> \<exists>g1 g2 g3. re_search poc_pat t = Some [g1, g2, g3] \<and>
       strip g1 = strip (segment r) \<and> strip g2 = strip (segment (after_comma r)) \<and>
       strip g3 = strip (rest_of_line (after_comma (after_comma r)))"
proof -
  have iff: "re_match poc_tail r \<noteq> None \<longleftrightarrow> poc_follows r" for r
    using poc_tail_None[of r] poc_tail_Some[of r] by (cases "poc_follows r") auto
  have "re_search (label ''POC:'' @ poc_tail) t =
     (case find_labelled ''POC:'' poc_follows t of None \<Rightarrow> None
      | Some r \<Rightarrow> re_match poc_tail r)"
    by (rule re_search_label[OF _ iff]) simp
  then have e: "re_search poc_pat t =
     (case find_labelled ''POC:'' poc_follows t of None \<Rightarrow> None
      | Some r \<Rightarrow> re_match poc_tail r)"
    by (simp add: poc_pat_def poc_tail_def)
  show ?thesis
  proof (cases "find_labelled ''POC:'' poc_follows t")
    case None
    then show ?thesis using e by simp
  next
    case (Some r)
    then have "poc_follows r" by (rule find_labelled_follows)
    from poc_tail_Some[OF this] show ?thesis using e Some by simp
  qed
qed

lemma poc_fields:
  "case find_labelled ''POC:'' poc_follows t of
     None \<Rightarrow> poc_name (parse_company_profile t) = None \<and>
       poc_email (parse_company_profile t) = None \<and>
       poc_phone (parse_company_profile t) = None
   | Some r \<Rightarrow> poc_name (parse_company_profile t) = Some (strip (segment r)) \<and>
       poc_email (parse_company_profile t) = Some (strip (segment (after_comma r))) \<and>
       poc_phone (parse_company_profile t) =
         Some (strip (rest_of_line (after_comma (after_comma r))))"
  using poc_search[of t]
  by (cases "find_labelled ''POC:'' poc_follows t") (auto simp: profile_fields)

lemma performance_fields:
  "customer (parse_past_performance t) =
     map_option strip (group1 (re_search (line_pat ''Customer:'') t))"
  "contract (parse_past_performance t) =
     map_option strip (group1 (re_search (line_pat ''Contract:'') t))"
  "val (parse_past_performance t) = map_option strip (group1 (re_search (line_pat ''Value:'') t))"
  "period (parse_past_performance t) =
     map_option strip (group1 (re_search (line_pat ''Period:'') t))"
  "contact (parse_past_performance t) =
     map_option strip (group1 (re_search (line_pat ''Contact:'') t))"
  by (simp_all add: parse_past_performance_def)

lemma strip_head: "strip x \<noteq> [] \<Longrightarrow> \<not> is_space (hd (strip x))"
proof -
  let ?y = "dropWhile is_space x"
  assume a: "strip x \<noteq> []"
  have y: "?y = strip x @ rev (takeWhile is_space (rev ?y))"
    unfolding strip_def
    by (metis rev_append rev_rev_ident takeWhile_dropWhile_id)
  then have "hd ?y = hd (strip x)" using a by (metis hd_append2)
  moreover have "?y \<noteq> []"
  proof
    assume e: "?y = []"
    have "strip x = []" unfolding strip_def e by simp
    with a show False ..
  qed
  ultimately show ?thesis using hd_dropWhile[of is_space x] by simp
qed

lemma strip_last: "strip x \<noteq> [] \<Longrightarrow> \<not> is_space (last (strip x))"
proof -
  assume a: "strip x \<noteq> []"
  then have "dropWhile is_space (rev (dropWhile is_space x)) \<noteq> []"
    by (simp add: strip_def)
  from hd_dropWhile[OF this] show ?thesis
    using a by (simp add: strip_def last_rev)
qed

lemma strip_idem: "strip (strip x) = strip x"
proof (cases "strip x = []")
  case True
  show ?thesis unfolding True by (simp add: strip_def)
next
  case False
  have a: "dropWhile is_space (strip x) = strip x"
    using False strip_head[OF False] by (simp add: dropWhile_eq_self_iff)
  have "\<not> is_space (hd (rev (strip x)))"
    using False strip_last[OF False] by (simp add: hd_rev)
  then have "dropWhile is_space (rev (strip x)) = rev (strip x)"
    by (simp add: dropWhile_eq_self_iff)
  then show ?thesis using a unfolding strip_def[of "strip x"] by simp
qed

lemma split_codes_trimmed: "c \<in> set (split_codes g) \<Longrightarrow> c \<noteq> [] \<and> strip c = c"
  by (auto simp: split_codes_def strip_idem)

lemma find_labelled_drop:
  "find_labelled l f t = Some r \<Longrightarrow> \<exists>k. r = drop (k + length l) t"
proof (induction t)
  case Nil
  then show ?case by simp
next
  case (Cons c cs)
  show ?case
  proof (cases "ci_prefix l (c # cs) \<and> f (drop (length l) (c # cs))")
    case True
    then have "r = drop (0 + length l) (c # cs)" using Cons.prems by simp
    then show ?thesis by blast
  next
    case False
    then obtain k where "r = drop (k + length l) cs" using Cons by auto
    then have "r = drop (Suc k + length l) (c # cs)" by simp
    then show ?thesis by blast
  qed
qed

lemma find_labelled_first:
  "find_labelled l f t = Some r' \<Longrightarrow>
   \<exists>r k. find_labelled l (\<lambda>r. True) t = Some r \<and> r' = drop k r"
proof (induction t)
  case Nil
  then show ?case by simp
next
  case (Cons c cs)
  show ?case
  proof (cases "ci_prefix l (c # cs)")
    case True
    show ?thesis
    proof (cases "f (drop (length l) (c # cs))")
      case T: True
      then have "r' = drop 0 (drop (length l) (c # cs))" using True Cons.prems by simp
      then show ?thesis using True
        by (intro exI[of _ "drop (length l) (c # cs)"] exI[of _ 0]) simp
    next
      case False
      then have "find_labelled l f cs = Some r'" using Cons.prems by simp
      from find_labelled_drop[OF this] obtain k where "r' = drop (k + length l) cs" by blast
      then have "r' = drop (Suc k) (drop (length l) (c # cs))" by (simp add: add.commute)
      then show ?thesis using True
        by (intro exI[of _ "drop (length l) (c # cs)"] exI[of _ "Suc k"]) simp
    qed
  next
    case False
    then show ?thesis using Cons by auto
  qed
qed

lemma count_drop: "length (filter P (drop k r)) \<le> length (filter P r)"
proof -
  have "length (filter P r) = length (filter P (take k r)) + length (filter P (drop k r))"
    by (metis append_take_drop_id filter_append length_append)
  then show ?thesis by simp
qed

lemma has_comma_count:
  "has_comma r \<Longrightarrow>
   length (filter (\<lambda>c. c = CHR '','') r) = Suc (length (filter (\<lambda>c. c = CHR '','') (after_comma r)))"
proof (induction r)
  case Nil
  then show ?case by (simp add: has_comma_def)
next
  case (Cons a r)
  then show ?case by (auto simp: has_comma_def after_comma_def not_comma_def)
qed

lemma poc_follows_count: "poc_follows r \<Longrightarrow> 2 \<le> length (filter (\<lambda>c. c = CHR '','') r)"
  using has_comma_count[of r] has_comma_count[of "after_comma r"]
  by (simp add: poc_follows_def)

lemma rest_of_line_no_nl: "nl \<notin> set (strip (rest_of_line r))"
proof
  assume "nl \<in> set (strip (rest_of_line r))"
  then have "nl \<in> set (rest_of_line r)"
    unfolding strip_def by (metis set_dropWhileD set_rev)
  then show False unfolding rest_of_line_def
    by (metis not_nl_def set_takeWhileD)
qed

lemma alnum_not_space: "is_alnum c \<Longrightarrow> \<not> is_space c"
  by (auto simp: is_space_def is_alnum_def is_alpha_def is_upper_def is_lower_def
      is_digit_def Let_def)

lemma digit_not_space: "is_digit c \<Longrightarrow> \<not> is_space c"
  by (auto simp: is_space_def is_digit_def Let_def)

lemmas spec_simps = label_rest_def label_line_def
  run_after_def run_follows_def run_value_def line_value_def rest_of_line_def value_follows_def
  naics_follows_def naics_run_def segment_def has_comma_def after_comma_def poc_follows_def

section \<open>Scenario A\<close>

text \<open>
  C1. On the profile and performance texts of Scenario A the pipeline returns an empty
  issue list, the recommended program codes \<open>[''54151S'']\<close>, and a checklist whose overall
  outcome is true.
\<close>

theorem scenario_A:
  "issues (ingest_documents scenario_A_profile scenario_A_performance) = [] \<and>
   recommended_sins (ingest_documents scenario_A_profile scenario_A_performance) = [''54151S''] \<and>
   overall_ok (checklist (ingest_documents scenario_A_profile scenario_A_performance)) = True"
  by (simp add: ingest_documents_def Let_def A_issues A_naics_field A_sins generate_checklist_def)

section \<open>The validator\<close>

lemma issue_mem: "x \<in> set (issue b n) \<longleftrightarrow> b \<and> x = n"
  by (auto simp: issue_def)

lemma issue_Nil: "issue b n = [] \<longleftrightarrow> \<not> b"
  by (simp add: issue_def)

text \<open>
  C2. The issue list of the validator is empty, and so the overall outcome of the checklist
  is true, exactly when the fifteen conditions hold; the issue count of the checklist is
  the length of the issue list.
\<close>

theorem validate_fields_empty_iff:
  "(validate_fields p q = [] \<longleftrightarrow> all_conditions p q) \<and>
   (overall_ok (generate_checklist p q (validate_fields p q)) \<longleftrightarrow> all_conditions p q) \<and>
   total_issues (generate_checklist p q iss) = length iss"
proof -
  have a: "validate_fields p q = [] \<longleftrightarrow> all_conditions p q"
    unfolding validate_fields_def all_conditions_def
    by (cases "poc_email p") (auto simp: issue_Nil)
  show ?thesis using a by (simp add: generate_checklist_def)
qed

section \<open>The code mapper\<close>

lemma first_seen_set: "set (first_seen xs) = set xs"
  by (induction xs) auto

lemma first_seen_distinct: "distinct (first_seen xs)"
  by (induction xs) (auto simp: first_seen_set)

lemma map_loop_eq:
  "map_loop sins cs =
     sins @ filter (\<lambda>s. s \<notin> set sins) (first_seen (List.map_filter NAICS_SIN_MAPPING cs))"
proof (induction cs arbitrary: sins)
  case Nil
  then show ?case by (simp add: map_filter_simps)
next
  case (Cons c cs)
  show ?case
  proof (cases "NAICS_SIN_MAPPING c")
    case None
    then show ?thesis using Cons by (simp add: map_filter_simps)
  next
    case (Some sin)
    then show ?thesis using Cons
      by (auto simp: map_filter_simps filter_filter conj_commute intro!: filter_cong)
  qed
qed

lemma table_ran: "NAICS_SIN_MAPPING c = Some s \<Longrightarrow> s \<in> {''54151S'', ''541611'', ''518210C''}"
  by (auto simp: NAICS_SIN_MAPPING_def split: if_splits)

text \<open>
  C3. For every list of classification codes the mapped list has no duplicates, holds
  only program codes of the table, and is the sequence of the program codes of the mapped
  input codes (unmapped codes dropped) with every program code at its first occurrence.
\<close>

theorem map_naics_to_sins_first_seen:
  "distinct (map_naics_to_sins cs) \<and>
   set (map_naics_to_sins cs) \<subseteq> {''54151S'', ''541611'', ''518210C''} \<and>
   map_naics_to_sins cs = first_seen (List.map_filter NAICS_SIN_MAPPING cs)"
proof -
  have e: "map_naics_to_sins cs = first_seen (List.map_filter NAICS_SIN_MAPPING cs)"
    by (simp add: map_naics_to_sins_def map_loop_eq)
  have "set (List.map_filter NAICS_SIN_MAPPING cs) \<subseteq> {''54151S'', ''541611'', ''518210C''}"
    by (induction cs) (auto simp: map_filter_simps split: option.splits dest: table_ran)
  then show ?thesis using e by (simp add: first_seen_distinct first_seen_set)
qed

section \<open>Empty input\<close>

text \<open>
  C5. On the empty text the company name is set, to the empty string: \<open>split\<close> returns one
  empty line, so the guard \<open>if lines\<close> holds. Every other field is unset.
\<close>

theorem parse_empty_text:
  "parse_company_profile [] =
     \<lparr> company_name = Some [], uei = None, duns = None, naics = [], poc_name = None,
       poc_email = None, poc_phone = None, address = None, sam_registered = None \<rparr> \<and>
   parse_past_performance [] =
     \<lparr> customer = None, contract = None, val = None, period = None, contact = None \<rparr>"
  by (simp add: parse_company_profile_def parse_past_performance_def eval_simps)

section \<open>SAM registration\<close>

lemma sam_search:
  "re_search sam_pat t =
     (case find_labelled ''SAM.gov:'' word_follows t of None \<Rightarrow> None
      | Some r \<Rightarrow> Some [following_word r])"
proof -
  have t: "re_match [Rep 0 is_space, Cap (Suc 0) is_word] r =
      (if following_word r = [] then None else Some [following_word r])" for r
    unfolding following_word_def by (rule tail_disjoint) (rule word_not_space)
  have "re_search (label ''SAM.gov:'' @ [Rep 0 is_space, Cap (Suc 0) is_word]) t =
     (case find_labelled ''SAM.gov:'' word_follows t of None \<Rightarrow> None
      | Some r \<Rightarrow> re_match [Rep 0 is_space, Cap (Suc 0) is_word] r)"
    by (rule re_search_label) (simp_all add: t word_follows_def)
  moreover have "word_follows r" if "find_labelled ''SAM.gov:'' word_follows t = Some r" for r
    using that by (induction t) (auto split: if_splits)
  ultimately show ?thesis
    by (auto simp: sam_pat_def t word_follows_def split: option.splits)
qed

text \<open>
  C6, as stated, fails: the text \<open>SAM.gov: (pending)\<close> has a line with the label, and the
  SAM status stays unknown, because no word character follows the label.
\<close>

theorem sam_label_counterexample:
  "label_line ''SAM.gov:'' cex_sam_text = Some ''SAM.gov: (pending)'' \<and>
   sam_registered (parse_company_profile cex_sam_text) = None"
  by (simp add: cex_sam_text_def profile_fields eval_simps spec_simps)

text \<open>
  C6, amended. When the text has a place where the label \<open>SAM.gov:\<close> is followed, after
  optional whitespace, by a word character, the SAM status is a definite boolean: true
  exactly when the word after the leftmost such place is \<open>registered\<close> up to the case of
  letters, false for any other word. Without such a place the status stays unknown. The
  validator reports \<open>missing_sam_status\<close> exactly for the unknown status, and the checklist
  entry \<open>has_sam_registration\<close> holds exactly for the status true.
\<close>

theorem sam_tristate:
  "sam_registered (parse_company_profile t) =
     (case find_labelled ''SAM.gov:'' word_follows t of None \<Rightarrow> None
      | Some r \<Rightarrow> Some (lower (following_word r) = ''registered'')) \<and>
   (''missing_sam_status'' \<in> set (validate_fields p q) \<longleftrightarrow> sam_registered p = None) \<and>
   (ok (has_sam_registration (generate_checklist p q iss)) \<longleftrightarrow> sam_registered p = Some True)"
proof -
  have a: "sam_registered (parse_company_profile t) =
     (case find_labelled ''SAM.gov:'' word_follows t of None \<Rightarrow> None
      | Some r \<Rightarrow> Some (lower (following_word r) = ''registered''))"
    by (simp add: profile_fields sam_search split: option.splits)
  have b: "''missing_sam_status'' \<in> set (validate_fields p q) \<longleftrightarrow> sam_registered p = None"
    by (simp add: validate_fields_def issue_mem split: option.splits)
  show ?thesis using a b by (simp add: generate_checklist_def)
qed

section \<open>The email issues\<close>

lemma local_not_at: "\<not> local_char CHR ''@''"
  by (simp add: eval_simps)

lemma email_format_accepted:
  assumes "email_format e"
  shows "validate_email e"
proof -
  obtain l d tld where e: "e = l @ ''@'' @ d @ ''.'' @ tld"
    and l: "l \<noteq> []" "list_all local_char l" and d: "d \<noteq> []" "list_all domain_char d"
    and tld: "2 \<le> length tld" "list_all is_alpha tld"
    using assms unfolding email_format_def by blast
  have "takeWhile is_alpha tld = tld"
    using tld(2) by (simp add: list_all_iff)
  then have kt: "length (takeWhile is_alpha tld) = length tld" "drop (length tld) tld = []"
    by (rule arg_cong) simp
  have t3: "re_match [Rep 2 is_alpha, Eos] tld \<noteq> None"
    unfolding re_match_Rep_accepts
    by (rule exI[of _ "length tld"]) (use tld(1) kt in \<open>simp add: re_match.simps\<close>)
  have t2: "re_match [Rep 1 domain_char, Lit ((=) CHR ''.''), Rep 2 is_alpha, Eos]
              (d @ ''.'' @ tld) \<noteq> None"
    unfolding re_match_Rep_accepts
    by (rule exI[of _ "length d"])
      (use d t3 in \<open>auto simp: list_all_iff re_match.simps(2) takeWhile_append2 Suc_le_eq\<close>)
  have k: "takeWhile local_char e = l"
    using l(2) local_not_at by (simp add: e list_all_iff takeWhile_tail)
  have "re_match email_pat e \<noteq> None"
    unfolding email_pat_def re_match_Rep_accepts
    by (rule exI[of _ "length l"]) (use l t2 k in \<open>simp add: Suc_le_eq e re_match.simps(2)\<close>)
  moreover have "e \<noteq> []" using e by simp
  ultimately show ?thesis by (simp add: validate_email_def)
qed

text \<open>
  C7. The issues \<open>missing_poc_email\<close> and \<open>invalid_poc_email\<close> never appear together,
  and a profile whose email is set and has the email format of the specification does not
  get the issue \<open>invalid_poc_email\<close>.
\<close>

theorem email_issues:
  "\<not> (''missing_poc_email'' \<in> set (validate_fields p q) \<and>
      ''invalid_poc_email'' \<in> set (validate_fields p q)) \<and>
   (poc_email p = Some e \<and> email_format e \<longrightarrow>
      ''invalid_poc_email'' \<notin> set (validate_fields p q))"
proof -
  have a: "\<not> (''missing_poc_email'' \<in> set (validate_fields p q) \<and>
      ''invalid_poc_email'' \<in> set (validate_fields p q))"
    by (simp add: validate_fields_def issue_mem split: option.splits)
  have b: "''invalid_poc_email'' \<notin> set (validate_fields p q)"
    if "poc_email p = Some e" "email_format e"
    using that email_format_accepted[of e]
    by (auto simp: validate_fields_def issue_mem)
  show ?thesis using a b by blast
qed

theorem email_issues_witness:
  "poc_email \<lparr> company_name = None, uei = None, duns = None, naics = [], poc_name = None,
       poc_email = Some ''jane@acme.com'', poc_phone = None, address = None,
       sam_registered = None \<rparr> = Some ''jane@acme.com'' \<and>
   email_format ''jane@acme.com'' \<and>
   ''invalid_poc_email'' \<notin> set (validate_fields
     \<lparr> company_name = None, uei = None, duns = None, naics = [], poc_name = None,
       poc_email = Some ''jane@acme.com'', poc_phone = None, address = None,
       sam_registered = None \<rparr>
     \<lparr> customer = None, contract = None, val = None, period = None, contact = None \<rparr>)"
proof -
  have f: "email_format ''jane@acme.com''"
    unfolding email_format_def
    by (rule exI[of _ "''jane''"], rule exI[of _ "''acme''"], rule exI[of _ "''com''"])
      (simp add: eval_simps)
  show ?thesis
    using f email_issues[of
     "\<lparr> company_name = None, uei = None, duns = None, naics = [], poc_name = None,
       poc_email = Some ''jane@acme.com'', poc_phone = None, address = None,
       sam_registered = None \<rparr>"
     "\<lparr> customer = None, contract = None, val = None, period = None, contact = None \<rparr>"
     "''jane@acme.com''"]
    by simp
qed

section \<open>Empty strings and unset fields\<close>

lemma blank_truthy: "blank_variant x y \<Longrightarrow> truthy y = truthy x"
  by (cases x; cases y) (auto simp: blank_variant_def)

lemma blank_email:
  "blank_variant x y \<Longrightarrow>
   (case y of None \<Rightarrow> [m] | Some e \<Rightarrow> if e = [] then [m] else if \<not> validate_email e then [i] else []) =
   (case x of None \<Rightarrow> [m] | Some e \<Rightarrow> if e = [] then [m] else if \<not> validate_email e then [i] else [])"
  by (cases x; cases y) (auto simp: blank_variant_def)

lemma blank_email_ok:
  "blank_variant x y \<Longrightarrow>
   (truthy y \<and> (case y of None \<Rightarrow> False | Some e \<Rightarrow> validate_email e)) =
   (truthy x \<and> (case x of None \<Rightarrow> False | Some e \<Rightarrow> validate_email e))"
  by (cases x; cases y) (auto simp: blank_variant_def)

lemma profile_variantD:
  assumes "profile_variant p p'"
  shows "truthy (company_name p') = truthy (company_name p)"
    "truthy (uei p') = truthy (uei p)" "truthy (duns p') = truthy (duns p)"
    "truthy (poc_name p') = truthy (poc_name p)" "truthy (poc_phone p') = truthy (poc_phone p)"
    "truthy (address p') = truthy (address p)" "naics p' = naics p"
    "sam_registered p' = sam_registered p" "blank_variant (poc_email p) (poc_email p')"
  using assms by (simp_all add: profile_variant_def blank_truthy[of "company_name p"]
      blank_truthy[of "uei p"] blank_truthy[of "duns p"] blank_truthy[of "poc_name p"]
      blank_truthy[of "poc_phone p"] blank_truthy[of "address p"])

lemma performance_variantD:
  assumes "performance_variant q q'"
  shows "truthy (customer q') = truthy (customer q)" "truthy (contract q') = truthy (contract q)"
    "truthy (val q') = truthy (val q)" "truthy (period q') = truthy (period q)"
    "truthy (contact q') = truthy (contact q)"
  using assms by (simp_all add: performance_variant_def blank_truthy[of "customer q"]
      blank_truthy[of "contract q"] blank_truthy[of "val q"] blank_truthy[of "period q"]
      blank_truthy[of "contact q"])

lemma variant_validate:
  assumes "profile_variant p p'" "performance_variant q q'"
  shows "validate_fields p' q' = validate_fields p q"
  unfolding validate_fields_def
  by (simp add: profile_variantD[OF assms(1)] performance_variantD[OF assms(2)]
      blank_email[OF profile_variantD(9)[OF assms(1)]])

lemma variant_checklist:
  assumes "profile_variant p p'" "performance_variant q q'"
  shows "generate_checklist p' q' iss = generate_checklist p q iss"
proof -
  have e: "(truthy (poc_email p') \<and> (case poc_email p' of None \<Rightarrow> False | Some e \<Rightarrow> validate_email e)) =
    (truthy (poc_email p) \<and> (case poc_email p of None \<Rightarrow> False | Some e \<Rightarrow> validate_email e))"
    by (rule blank_email_ok[OF profile_variantD(9)[OF assms(1)]])
  show ?thesis
    unfolding generate_checklist_def
    using e by (simp add: profile_variantD(1-8)[OF assms(1)] performance_variantD[OF assms(2)])
qed

text \<open>
  C10. The validator and the checklist see a field only through its truthiness: replacing
  any empty-string fields of a profile and a performance record by the unset state changes
  neither the issue list nor the checklist. Extraction does produce such values: on a text
  of whitespace the company name is the empty string, which is reported as
  \<open>missing_company_name\<close> and fails \<open>has_company_info\<close>.
\<close>

theorem blank_fields_as_unset:
  assumes "profile_variant p p'" and "performance_variant q q'"
  shows "validate_fields p' q' = validate_fields p q \<and>
    generate_checklist p' q' (validate_fields p' q') =
      generate_checklist p q (validate_fields p q) \<and>
    company_name (parse_company_profile ''   '') = Some [] \<and>
    ''missing_company_name'' \<in> set (validate_fields (p\<lparr>company_name := Some []\<rparr>) q) \<and>
    \<not> ok (has_company_info
      (generate_checklist (p\<lparr>company_name := Some []\<rparr>) q
         (validate_fields (p\<lparr>company_name := Some []\<rparr>) q)))"
proof -
  have a: "validate_fields p' q' = validate_fields p q"
    by (rule variant_validate[OF assms])
  have b: "company_name (parse_company_profile ''   '') = Some []"
    by (simp add: profile_fields eval_simps)
  have c: "''missing_company_name'' \<in> set (validate_fields (p\<lparr>company_name := Some []\<rparr>) q)"
    by (simp add: validate_fields_def issue_mem)
  show ?thesis using a b c
    by (simp add: variant_checklist[OF assms]) (simp add: generate_checklist_def)
qed

theorem blank_fields_as_unset_witness:
  "profile_variant
     \<lparr> company_name = Some [], uei = Some ''ABC123'', duns = Some [], naics = [''541511''],
       poc_name = Some ''Jane'', poc_email = Some [], poc_phone = None, address = Some [],
       sam_registered = Some True \<rparr>
     \<lparr> company_name = None, uei = Some ''ABC123'', duns = Some [], naics = [''541511''],
       poc_name = Some ''Jane'', poc_email = None, poc_phone = None, address = Some [],
       sam_registered = Some True \<rparr> \<and>
   performance_variant
     \<lparr> customer = Some [], contract = Some ''C-100'', val = None, period = Some [],
       contact = Some [] \<rparr>
     \<lparr> customer = None, contract = Some ''C-100'', val = None, period = Some [],
       contact = None \<rparr> \<and>
   validate_fields
     \<lparr> company_name = None, uei = Some ''ABC123'', duns = Some [], naics = [''541511''],
       poc_name = Some ''Jane'', poc_email = None, poc_phone = None, address = Some [],
       sam_registered = Some True \<rparr>
     \<lparr> customer = None, contract = Some ''C-100'', val = None, period = Some [],
       contact = None \<rparr> =
   validate_fields
     \<lparr> company_name = Some [], uei = Some ''ABC123'', duns = Some [], naics = [''541511''],
       poc_name = Some ''Jane'', poc_email = Some [], poc_phone = None, address = Some [],
       sam_registered = Some True \<rparr>
     \<lparr> customer = Some [], contract = Some ''C-100'', val = None, period = Some [],
       contact = Some [] \<rparr>"
proof -
  have h1: "profile_variant
     \<lparr> company_name = Some [], uei = Some ''ABC123'', duns = Some [], naics = [''541511''],
       poc_name = Some ''Jane'', poc_email = Some [], poc_phone = None, address = Some [],
       sam_registered = Some True \<rparr>
     \<lparr> company_name = None, uei = Some ''ABC123'', duns = Some [], naics = [''541511''],
       poc_name = Some ''Jane'', poc_email = None, poc_phone = None, address = Some [],
       sam_registered = Some True \<rparr>"
    by (simp add: profile_variant_def blank_variant_def)
  have h2: "performance_variant
     \<lparr> customer = Some [], contract = Some ''C-100'', val = None, period = Some [],
       contact = Some [] \<rparr>
     \<lparr> customer = None, contract = Some ''C-100'', val = None, period = Some [],
       contact = None \<rparr>"
    by (simp add: performance_variant_def blank_variant_def)
  show ?thesis using h1 h2 blank_fields_as_unset[OF h1 h2] by blast
qed

section \<open>NAICS codes\<close>

text \<open>
  C8, as stated, fails: on the text \<open>NAICS: 541511, 541512 (primary)\<close> the extracted
  codes are \<open>541511\<close> and \<open>541512\<close>, while the comma-separated segments of the text after
  the label on that line are \<open>541511\<close> and \<open>541512 (primary)\<close>.
\<close>

theorem naics_line_counterexample:
  "naics (parse_company_profile cex_naics_text) = [''541511'', ''541512''] \<and>
   filter (\<lambda>c. c \<noteq> []) (map strip (split_on CHR '','' (label_rest ''NAICS:'' cex_naics_text))) =
     [''541511'', ''541512 (primary)'']"
  by (simp add: cex_naics_text_def profile_fields eval_simps spec_simps)

text \<open>
  C8, amended. The NAICS codes are the comma-separated segments of the run of digits, commas
  and whitespace that follows the label (after optional whitespace) at the leftmost place
  where the label is followed by such a character; the run ends at the first other
  character and may go on over line breaks. Every segment is trimmed, empty segments are
  dropped, order and duplicates are kept. The codes are never empty and never untrimmed.
\<close>

theorem naics_codes_of_run:
  "naics (parse_company_profile t) =
     (case find_labelled ''NAICS:'' naics_follows t of None \<Rightarrow> []
      | Some r \<Rightarrow> filter (\<lambda>c. c \<noteq> []) (map strip (split_on CHR '','' (naics_run r)))) \<and>
   (\<forall>c \<in> set (naics (parse_company_profile t)). c \<noteq> [] \<and> strip c = c)"
proof -
  have a: "naics (parse_company_profile t) =
     (case find_labelled ''NAICS:'' naics_follows t of None \<Rightarrow> []
      | Some r \<Rightarrow> filter (\<lambda>c. c \<noteq> []) (map strip (split_on CHR '','' (naics_run r))))"
    by (simp add: naics_search split_codes_def split: option.splits)
  have "c \<noteq> [] \<and> strip c = c" if "c \<in> set (naics (parse_company_profile t))" for c
    using that split_codes_trimmed[of c]
    by (auto simp: naics_search split: option.splits)
  then show ?thesis using a by blast
qed

theorem naics_codes_of_run_witness:
  "''541512'' \<in> set (naics (parse_company_profile ''NAICS: 541511,, 541512 ; 7''))  \<and>
   ''541512'' \<noteq> [] \<and> strip ''541512'' = ''541512'' \<and>
   naics (parse_company_profile ''NAICS: 541511,, 541512 ; 7'') = [''541511'', ''541512'']"
proof -
  have n: "naics (parse_company_profile ''NAICS: 541511,, 541512 ; 7'') = [''541511'', ''541512'']"
    by (simp add: profile_fields eval_simps)
  then have m: "''541512'' \<in> set (naics (parse_company_profile ''NAICS: 541511,, 541512 ; 7''))"
    by simp
  from naics_codes_of_run[of "''NAICS: 541511,, 541512 ; 7''"]
  have "\<forall>c \<in> set (naics (parse_company_profile ''NAICS: 541511,, 541512 ; 7'')).
      c \<noteq> [] \<and> strip c = c" by (rule conjunct2)
  from bspec[OF this m] show ?thesis using n m by blast
qed

section \<open>Point of contact\<close>

text \<open>
  C9, as stated, fails: in the text of the three lines \<open>POC: Jane, jane@acme.com\<close>,
  \<open>Address: 1 Main St, Suite 5\<close> and \<open>SAM.gov: registered\<close> the label is followed on its
  line by two comma-separated segments only, and all three POC fields are set: the second
  segment runs over the line break up to the comma of the next line, and the third stops
  at the end of that line.
\<close>

theorem poc_line_counterexample:
  "length (split_on CHR '','' (label_rest ''POC:'' cex_poc_text)) = 2 \<and>
   poc_name (parse_company_profile cex_poc_text) = Some ''Jane'' \<and>
   poc_email (parse_company_profile cex_poc_text) =
     Some ''jane@acme.com\<newline>Address: 1 Main St'' \<and>
   poc_phone (parse_company_profile cex_poc_text) = Some ''Suite 5''"
  by (simp add: cex_poc_text_def profile_fields eval_simps spec_simps)

text \<open>
  C9, amended. Either all three POC fields are set or none is. They are set exactly when
  the text has a place where the label is followed by two commas, with a non-empty segment
  before each and a character other than a line break after the second; the commas may
  stand on later lines. At the leftmost such place the name is the text up to the first
  comma, the email the text between the two commas, and the phone the rest of the line
  that starts after the second comma and optional whitespace, each trimmed. When fewer
  than two commas follow the first occurrence of the label, no POC field is set.
\<close>

theorem poc_all_or_nothing:
  "((poc_name (parse_company_profile t) = None \<and> poc_email (parse_company_profile t) = None \<and>
      poc_phone (parse_company_profile t) = None) \<or>
    (\<exists>n e ph. poc_name (parse_company_profile t) = Some n \<and>
      poc_email (parse_company_profile t) = Some e \<and>
      poc_phone (parse_company_profile t) = Some ph)) \<and>
   (case find_labelled ''POC:'' poc_follows t of
      None \<Rightarrow> poc_name (parse_company_profile t) = None \<and>
        poc_email (parse_company_profile t) = None \<and>
        poc_phone (parse_company_profile t) = None
    | Some r \<Rightarrow> poc_name (parse_company_profile t) = Some (strip (segment r)) \<and>
        poc_email (parse_company_profile t) = Some (strip (segment (after_comma r))) \<and>
        poc_phone (parse_company_profile t) =
          Some (strip (rest_of_line (after_comma (after_comma r))))) \<and>
   ((case find_labelled ''POC:'' (\<lambda>r. True) t of None \<Rightarrow> True
     | Some r \<Rightarrow> length (filter (\<lambda>c. c = CHR '','') r) < 2) \<longrightarrow>
    poc_name (parse_company_profile t) = None \<and> poc_email (parse_company_profile t) = None \<and>
    poc_phone (parse_company_profile t) = None)"
proof -
  note f = poc_fields[of t]
  have a: "(poc_name (parse_company_profile t) = None \<and> poc_email (parse_company_profile t) = None \<and>
      poc_phone (parse_company_profile t) = None) \<or>
    (\<exists>n e ph. poc_name (parse_company_profile t) = Some n \<and>
      poc_email (parse_company_profile t) = Some e \<and>
      poc_phone (parse_company_profile t) = Some ph)"
    using f by (cases "find_labelled ''POC:'' poc_follows t") auto
  have c: "find_labelled ''POC:'' poc_follows t = None"
    if h: "case find_labelled ''POC:'' (\<lambda>r. True) t of None \<Rightarrow> True
     | Some r \<Rightarrow> length (filter (\<lambda>c. c = CHR '','') r) < 2"
  proof (cases "find_labelled ''POC:'' poc_follows t")
    case None
    then show ?thesis .
  next
    case (Some r')
    from find_labelled_first[OF Some] obtain r k where
      r: "find_labelled ''POC:'' (\<lambda>r. True) t = Some r" "r' = drop k r" by blast
    have "2 \<le> length (filter (\<lambda>c. c = CHR '','') r')"
      using find_labelled_follows[OF Some] by (rule poc_follows_count)
    then have "2 \<le> length (filter (\<lambda>c. c = CHR '','') r)"
      using count_drop[of "\<lambda>c. c = CHR '',''" k r] r(2) by simp
    then show ?thesis using h r(1) by simp
  qed
  have d: "poc_name (parse_company_profile t) = None \<and> poc_email (parse_company_profile t) = None \<and>
    poc_phone (parse_company_profile t) = None"
    if "case find_labelled ''POC:'' (\<lambda>r. True) t of None \<Rightarrow> True
     | Some r \<Rightarrow> length (filter (\<lambda>c. c = CHR '','') r) < 2"
    using f c[OF that] by simp
  show ?thesis using a f d by blast
qed

theorem poc_all_or_nothing_witness:
  "(case find_labelled ''POC:'' (\<lambda>r. True) ''POC: Jane, jane@acme.com'' of None \<Rightarrow> True
     | Some r \<Rightarrow> length (filter (\<lambda>c. c = CHR '','') r) < 2) \<and>
   poc_name (parse_company_profile ''POC: Jane, jane@acme.com'') = None \<and>
   poc_email (parse_company_profile ''POC: Jane, jane@acme.com'') = None \<and>
   poc_phone (parse_company_profile ''POC: Jane, jane@acme.com'') = None"
proof -
  have h: "case find_labelled ''POC:'' (\<lambda>r. True) ''POC: Jane, jane@acme.com'' of None \<Rightarrow> True
     | Some r \<Rightarrow> length (filter (\<lambda>c. c = CHR '','') r) < 2"
    by (simp add: eval_simps)
  from poc_all_or_nothing[of "''POC: Jane, jane@acme.com''"]
  have "(case find_labelled ''POC:'' (\<lambda>r. True) ''POC: Jane, jane@acme.com'' of None \<Rightarrow> True
     | Some r \<Rightarrow> length (filter (\<lambda>c. c = CHR '','') r) < 2) \<longrightarrow>
    poc_name (parse_company_profile ''POC: Jane, jane@acme.com'') = None \<and>
    poc_email (parse_company_profile ''POC: Jane, jane@acme.com'') = None \<and>
    poc_phone (parse_company_profile ''POC: Jane, jane@acme.com'') = None"
    by (elim conjE)
  from mp[OF this h] h show ?thesis by (rule conjI[rotated])
qed

section \<open>Leftmost search\<close>

text \<open>
  C4, as stated, fails: in the text of the two lines \<open>UEI:\<close> and \<open>DUNS: 123456789\<close> the
  first line that contains the label \<open>UEI:\<close> is the first one, and the extracted UEI is
  \<open>DUNS\<close>, taken from the second line.
\<close>

theorem label_line_counterexample:
  "uei (parse_company_profile cex_uei_text) = Some ''DUNS'' \<and>
   label_line ''UEI:'' cex_uei_text = Some ''UEI:'' \<and>
   \<not> occurs_in ''DUNS'' ''UEI:''"
  by (simp add: cex_uei_text_def profile_fields eval_simps spec_simps)

text \<open>
  C4, amended. Every labelled field is the result of its own search over the whole text,
  whatever the other labels do: the value is taken at the leftmost place where the label is
  followed, after optional whitespace that may include line breaks, by a value of the
  field's kind, and later occurrences of the label are not used. The value of the UEI, DUNS
  and SAM fields is the run of letters and digits, of digits, or of word characters found
  there. A free-text value (address, customer, contract, value, period, contact, and the
  POC phone) is the rest of the line on which it starts, trimmed, and has no line break.
\<close>

theorem extraction_leftmost:
  "uei (parse_company_profile t) = run_value ''UEI:'' is_alnum t \<and>
   duns (parse_company_profile t) = run_value ''DUNS:'' is_digit t \<and>
   naics (parse_company_profile t) =
     (case find_labelled ''NAICS:'' naics_follows t of None \<Rightarrow> []
      | Some r \<Rightarrow> filter (\<lambda>c. c \<noteq> []) (map strip (split_on CHR '','' (naics_run r)))) \<and>
   (case find_labelled ''POC:'' poc_follows t of
      None \<Rightarrow> poc_name (parse_company_profile t) = None \<and>
        poc_email (parse_company_profile t) = None \<and>
        poc_phone (parse_company_profile t) = None
    | Some r \<Rightarrow> poc_name (parse_company_profile t) = Some (strip (segment r)) \<and>
        poc_email (parse_company_profile t) = Some (strip (segment (after_comma r))) \<and>
        poc_phone (parse_company_profile t) =
          Some (strip (rest_of_line (after_comma (after_comma r))))) \<and>
   address (parse_company_profile t) = line_value ''Address:'' t \<and>
   sam_registered (parse_company_profile t) =
     map_option (\<lambda>w. lower w = ''registered'') (run_value ''SAM.gov:'' is_word t) \<and>
   customer (parse_past_performance u) = line_value ''Customer:'' u \<and>
   contract (parse_past_performance u) = line_value ''Contract:'' u \<and>
   val (parse_past_performance u) = line_value ''Value:'' u \<and>
   period (parse_past_performance u) = line_value ''Period:'' u \<and>
   contact (parse_past_performance u) = line_value ''Contact:'' u \<and>
   nl \<notin> set (strip (rest_of_line r))"
proof -
  have uei: "uei (parse_company_profile t) = run_value ''UEI:'' is_alnum t"
    unfolding profile_fields uei_pat_def One_nat_def
    by (rule run_search) (simp_all add: alnum_not_space)
  have duns: "duns (parse_company_profile t) = run_value ''DUNS:'' is_digit t"
    unfolding profile_fields duns_pat_def One_nat_def
    by (rule run_search) (simp_all add: digit_not_space)
  have sam: "sam_registered (parse_company_profile t) =
     map_option (\<lambda>w. lower w = ''registered'') (run_value ''SAM.gov:'' is_word t)"
    unfolding profile_fields sam_pat_def One_nat_def
    by (rule arg_cong[where f = "map_option (\<lambda>w. lower w = ''registered'')"], rule run_search)
      (simp_all add: word_not_space)
  have naics: "naics (parse_company_profile t) =
     (case find_labelled ''NAICS:'' naics_follows t of None \<Rightarrow> []
      | Some r \<Rightarrow> filter (\<lambda>c. c \<noteq> []) (map strip (split_on CHR '','' (naics_run r))))"
    by (simp add: naics_search split_codes_def split: option.splits)
  have line: "address (parse_company_profile t) = line_value ''Address:'' t"
    "customer (parse_past_performance u) = line_value ''Customer:'' u"
    "contract (parse_past_performance u) = line_value ''Contract:'' u"
    "val (parse_past_performance u) = line_value ''Value:'' u"
    "period (parse_past_performance u) = line_value ''Period:'' u"
    "contact (parse_past_performance u) = line_value ''Contact:'' u"
    by (simp_all add: profile_fields performance_fields line_search)
  show ?thesis
    using uei duns sam naics line poc_fields[of t] rest_of_line_no_nl[of r] by simp
qed

end
